theory Spec2Isabelle
  imports Main "HOL-Library.AList" "HOL-Library.Sublist"
begin

section \<open>Data model of \<open>secure_mail/backends.py\<close>\<close>

text \<open>
  Exceptions are values. \<open>EncryptionFailedError\<close> and \<open>SigningFailedError\<close> are the two
  classes of \<open>utils.py\<close>; the former carries the address and the engine status it is
  constructed with. \<open>NameError\<close> and \<open>UnboundLocalError\<close> are what Python raises when a
  name is read that has no binding; \<open>IOError\<close> is a failed \<open>open\<close>. \<open>HandlerError\<close> stands
  for whatever else a site-specific handler may raise.
\<close>

datatype error =
    EncryptionFailedError string string
  | SigningFailedError string
  | NameError string
  | UnboundLocalError string
  | IOError string
  | HandlerError string

text \<open>
  What \<open>gpg.encrypt\<close> and \<open>gpg.sign\<close> hand back: the \<open>ok\<close> flag, the \<open>status\<close> text and
  the text \<open>smart_text\<close> reads out of the result object.
\<close>

record gpg_result =
  ok :: bool
  status :: string
  data :: string

text \<open>
  What is handed to the engine is a text string or a byte string: bodies and
  alternatives are text, a file opened with \<open>"rb"\<close> is read as bytes, and the content
  of an attachment triple may be either. The two are different types (Python 3): a byte
  string is never equal to a text string, so \<open>text != ""\<close> is true of every byte
  string, the empty one too. \<open>differs_from_empty_str\<close> is that comparison.
\<close>

datatype plaintext = Str string | Bytes string

definition differs_from_empty_str :: "plaintext \<Rightarrow> bool" where
  "differs_from_empty_str text = (case text of Str s \<Rightarrow> s \<noteq> [] | Bytes b \<Rightarrow> True)"

definition characters :: "plaintext \<Rightarrow> string" where
  "characters text = (case text of Str s \<Rightarrow> s | Bytes b \<Rightarrow> b)"

text \<open>
  An attachment is either a bare file name or a \<open>(filename, content, mimetype)\<close> triple
  whose file name and media type may be \<open>None\<close>.
\<close>

datatype attachment =
    Filename string
  | Triple "string option" plaintext "string option"

text \<open>
  The fields of a Django message that \<open>copy_message\<close> reads, and the optional attribute
  \<open>do_not_encrypt_this_message\<close> (\<open>False\<close> when the attribute is absent, as
  \<open>getattr\<close> with that default reads it). A message without an \<open>alternatives\<close>
  attribute has the empty list there.
\<close>

record message =
  to :: "string list"
  cc :: "string list"
  bcc :: "string list"
  reply_to :: "string list"
  from_email :: string
  subject :: string
  body :: string
  alternatives :: "(string \<times> string) list"
  attachments :: "attachment list"
  extra_headers :: "(string \<times> string) list"
  connection :: nat
  do_not_encrypt_this_message :: bool

text \<open>
  Everything the module takes from outside: the GnuPG engine, the rows
  \<open>(address, use_asc)\<close> of the \<open>Address\<close> table in the order the database returns them,
  the file system read by \<open>open(attachment, "rb")\<close> (\<open>None\<close>: the file cannot be
  opened), the three handlers imported from \<open>handlers\<close> (\<open>None\<close>: the handler returns
  normally, \<open>Some e\<close>: it raises \<open>e\<close>) and the setting \<open>USE_GNUPG\<close>.
\<close>

record env =
  gpg_encrypt :: "plaintext \<Rightarrow> string \<Rightarrow> gpg_result"
  gpg_sign :: "string \<Rightarrow> gpg_result"
  Address_objects :: "(string \<times> bool) list"
  open_rb :: "string \<Rightarrow> string option"
  handle_failed_message_encryption :: "error \<Rightarrow> error option"
  handle_failed_alternative_encryption :: "error \<Rightarrow> error option"
  handle_failed_attachment_encryption :: "error \<Rightarrow> error option"
  USE_GNUPG :: bool

text \<open>
  The calls made to \<open>gpg.encrypt\<close>, oldest first, each with its plaintext and its
  recipient. Every function that may call the engine takes the log and returns it
  extended, also when it raises.
\<close>

type_synonym gpg_log = "(plaintext \<times> string) list"

section \<open>The operations\<close>

text \<open>
  \<open>copy_message\<close> builds a new \<open>EmailMultiAlternatives\<close> from the fields of \<open>msg\<close>. The
  constructor is Django's; it is taken to store what it is given. The new object does
  not get the attribute \<open>do_not_encrypt_this_message\<close>.
\<close>

definition copy_message :: "message \<Rightarrow> message" where
  "copy_message msg =
     \<lparr>to = to msg, cc = cc msg, bcc = bcc msg, reply_to = reply_to msg,
      from_email = from_email msg, subject = subject msg, body = body msg,
      alternatives = alternatives msg, attachments = attachments msg,
      extra_headers = extra_headers msg, connection = connection msg,
      do_not_encrypt_this_message = False\<rparr>"

text \<open>
  \<open>encrypt\<close> returns \<open>smart_text\<close> of the engine's result, a text string, whatever the
  type of the plaintext.
\<close>

definition encrypt ::
  "env \<Rightarrow> plaintext \<Rightarrow> string \<Rightarrow> gpg_log \<Rightarrow> (error + string) \<times> gpg_log" where
  "encrypt env text addr log =
     (let encryption_result = gpg_encrypt env text addr;
          log' = log @ [(text, addr)]
      in if \<not> ok encryption_result \<or>
            (data encryption_result = [] \<and> differs_from_empty_str text)
         then (Inl (EncryptionFailedError addr (status encryption_result)), log')
         else (Inr (data encryption_result), log'))"

text \<open>
  In \<open>sign\<close> the \<open>raise\<close> statement builds its exception from \<open>addr\<close>, a name bound
  neither in the function nor in the module: evaluating the arguments raises
  \<open>NameError\<close> before any \<open>SigningFailedError\<close> exists. What \<open>gpg.sign\<close> makes of the
  keyword arguments it is called with is the library's and part of \<open>gpg_sign\<close>.
\<close>

definition sign :: "env \<Rightarrow> string \<Rightarrow> error + string" where
  "sign env text =
     (let signing_result = gpg_sign env text
      in if status signing_result \<noteq> ''signature created''
         then Inl (NameError ''addr'')
         else Inr (data signing_result))"

definition basename :: "string \<Rightarrow> string" where
  "basename p = rev (takeWhile (\<lambda>c. c \<noteq> CHR ''/'') (rev p))"

text \<open>
  Lines 62 to 72 of \<open>encrypt_attachment\<close>: a bare file name is read from the file
  system, as bytes, and has no media type; a triple is unpacked.
\<close>

definition resolve_attachment ::
  "env \<Rightarrow> attachment \<Rightarrow> error + string option \<times> plaintext \<times> string option" where
  "resolve_attachment env attachment =
     (case attachment of
        Filename path \<Rightarrow>
          (case open_rb env path of
             None \<Rightarrow> Inl (IOError path)
           | Some content \<Rightarrow> Inr (Some (basename path), Bytes content, None))
      | Triple filename content mimetype \<Rightarrow> Inr (filename, content, mimetype))"

text \<open>
  When \<open>encrypt\<close> raises and the handler returns normally, control reaches the
  \<open>return\<close> with \<open>encrypted_content\<close> never assigned: Python raises
  \<open>UnboundLocalError\<close>.
\<close>

definition encrypt_attachment ::
  "env \<Rightarrow> string \<Rightarrow> attachment \<Rightarrow> bool \<Rightarrow> gpg_log \<Rightarrow> (error + attachment) \<times> gpg_log" where
  "encrypt_attachment env address attachment use_asc log =
     (case resolve_attachment env attachment of
        Inl e \<Rightarrow> (Inl e, log)
      | Inr (filename, content, mimetype) \<Rightarrow>
          if mimetype = Some ''application/gpg-encrypted'' then (Inr attachment, log)
          else (case encrypt env content address log of
                  (Inl e, log') \<Rightarrow>
                    (case handle_failed_attachment_encryption env e of
                       Some e' \<Rightarrow> (Inl e', log')
                     | None \<Rightarrow> (Inl (UnboundLocalError ''encrypted_content''), log'))
                | (Inr encrypted_content, log') \<Rightarrow>
                    (Inr (Triple (case filename of
                                    None \<Rightarrow> None
                                  | Some f \<Rightarrow> (if use_asc then Some (f @ ''.asc'') else Some f))
                                 (Str encrypted_content)
                                 (Some ''application/gpg-encrypted'')), log')))"

text \<open>
  The loop over the alternatives of \<open>new_msg\<close> (lines 142 to 157): \<open>done\<close> is the local
  list \<open>alternatives\<close> built so far. A failed alternative whose handler returns
  normally is left out of the list.
\<close>

fun encrypt_alternatives ::
  "env \<Rightarrow> string \<Rightarrow> (string \<times> string) list \<Rightarrow> (string \<times> string) list \<Rightarrow> gpg_log \<Rightarrow>
   (error + (string \<times> string) list) \<times> gpg_log" where
  "encrypt_alternatives env address [] done log = (Inr done, log)"
| "encrypt_alternatives env address ((alt, mimetype) # rest) done log =
     (if mimetype = ''application/gpg-encrypted''
      then encrypt_alternatives env address rest (done @ [(alt, mimetype)]) log
      else (case encrypt env (Str alt) address log of
              (Inl e, log') \<Rightarrow>
                (case handle_failed_alternative_encryption env e of
                   Some e' \<Rightarrow> (Inl e', log')
                 | None \<Rightarrow> encrypt_alternatives env address rest done log')
            | (Inr encrypted_alternative, log') \<Rightarrow>
                encrypt_alternatives env address rest
                  (done @ [(encrypted_alternative, ''application/gpg-encrypted'')]) log'))"

text \<open>The loop over the attachments of \<open>new_msg\<close> (lines 161 to 165).\<close>

fun encrypt_attachments ::
  "env \<Rightarrow> string \<Rightarrow> bool \<Rightarrow> attachment list \<Rightarrow> attachment list \<Rightarrow> gpg_log \<Rightarrow>
   (error + attachment list) \<times> gpg_log" where
  "encrypt_attachments env address use_asc [] done log = (Inr done, log)"
| "encrypt_attachments env address use_asc (attachment # rest) done log =
     (case encrypt_attachment env address attachment use_asc log of
        (Inl e, log') \<Rightarrow> (Inl e, log')
      | (Inr a, log') \<Rightarrow> encrypt_attachments env address use_asc rest (done @ [a]) log')"

text \<open>
  What one pass of the loop over \<open>key_addrs.items()\<close> does to the object \<open>new_msg\<close>
  when the message is not flagged (lines 135 to 165): the body, then the alternatives,
  then the attachments. A failed body whose handler returns normally keeps the body it
  had.
\<close>

definition encrypt_for_address ::
  "env \<Rightarrow> string \<Rightarrow> bool \<Rightarrow> message \<Rightarrow> gpg_log \<Rightarrow> (error + message) \<times> gpg_log" where
  "encrypt_for_address env address use_asc new_msg log =
     (case (case encrypt env (Str (body new_msg)) address log of
              (Inl e, log1) \<Rightarrow>
                (case handle_failed_message_encryption env e of
                   Some e' \<Rightarrow> (Inl e', log1)
                 | None \<Rightarrow> (Inr new_msg, log1))
            | (Inr b, log1) \<Rightarrow> (Inr (new_msg\<lparr>body := b\<rparr>), log1)) of
        (Inl e, log1) \<Rightarrow> (Inl e, log1)
      | (Inr m1, log1) \<Rightarrow>
          (case encrypt_alternatives env address (alternatives m1) [] log1 of
             (Inl e, log2) \<Rightarrow> (Inl e, log2)
           | (Inr alts, log2) \<Rightarrow>
               (case encrypt_attachments env address use_asc (attachments m1) [] log2 of
                  (Inl e, log3) \<Rightarrow> (Inl e, log3)
                | (Inr atts, log3) \<Rightarrow>
                    (Inr (m1\<lparr>alternatives := alts, attachments := atts\<rparr>), log3))))"

text \<open>
  \<open>dict(Address.objects.filter(address__in=msg.to).values_list('address', 'use_asc'))\<close>:
  the rows whose address is in \<open>msg.to\<close>, made into a dictionary. A dictionary is an
  association list with distinct keys in insertion order; a repeated key keeps its
  place and takes the later value. \<open>keys()\<close> and \<open>items()\<close> of one dictionary go
  through it in the same order; an interpreter whose dictionaries are not ordered by
  insertion is covered by the order of the rows, which is arbitrary.
\<close>

definition py_dict :: "('k \<times> 'v) list \<Rightarrow> ('k \<times> 'v) list" where
  "py_dict pairs = foldl (\<lambda>d (k, v). AList.update k v d) [] pairs"

definition key_addrs_of :: "env \<Rightarrow> message \<Rightarrow> (string \<times> bool) list" where
  "key_addrs_of env msg =
     py_dict (filter (\<lambda>(address, use_asc). address \<in> set (to msg)) (Address_objects env))"

text \<open>
  Messages built by \<open>copy_message\<close> are objects: the two result lists hold references
  to them, and \<open>new_msg\<close> is changed after a reference to it may already be in a list.
  So the loops keep a store of objects, a reference being the index of its object.
\<close>

record loop_state =
  unencrypted_messages :: "nat list"
  encrypted_messages :: "nat list"
  heap :: "message list"

text \<open>
  The loop over \<open>key_addrs.items()\<close> (lines 130 to 167); \<open>new_msg\<close> is the reference
  made at line 125, always an index of the store.
\<close>

fun keyed_loop ::
  "env \<Rightarrow> message \<Rightarrow> nat \<Rightarrow> (string \<times> bool) list \<Rightarrow> loop_state \<Rightarrow> gpg_log \<Rightarrow>
   (error + loop_state) \<times> gpg_log" where
  "keyed_loop env msg new_msg [] s log = (Inr s, log)"
| "keyed_loop env msg new_msg ((address, use_asc) # rest) s log =
     (if do_not_encrypt_this_message msg
      then keyed_loop env msg new_msg rest
             (s\<lparr>unencrypted_messages := unencrypted_messages s @ [new_msg]\<rparr>) log
      else (case encrypt_for_address env address use_asc (heap s ! new_msg) log of
              (Inl e, log') \<Rightarrow> (Inl e, log')
            | (Inr m, log') \<Rightarrow>
                keyed_loop env msg new_msg rest
                  (s\<lparr>heap := (heap s)[new_msg := m],
                     encrypted_messages := encrypted_messages s @ [new_msg]\<rparr>) log'))"

text \<open>
  One pass of the loop over \<open>email_messages\<close> (lines 108 to 167): the key lookup, the
  copy for the addresses without a key, appended when it has a recipient, the copy for
  the addresses with a key, and the loop over those addresses.
\<close>

definition process_message ::
  "env \<Rightarrow> message \<Rightarrow> loop_state \<Rightarrow> gpg_log \<Rightarrow> (error + loop_state) \<times> gpg_log" where
  "process_message env msg s log =
     (let key_addrs = key_addrs_of env msg;
          unencrypted_msg = length (heap s);
          unencrypted_to = filter (\<lambda>addr. addr \<notin> set (map fst key_addrs)) (to msg);
          s1 = s\<lparr>heap := heap s @ [(copy_message msg)\<lparr>to := unencrypted_to\<rparr>]\<rparr>;
          s2 = (if unencrypted_to \<noteq> []
                then s1\<lparr>unencrypted_messages := unencrypted_messages s1 @ [unencrypted_msg]\<rparr>
                else s1);
          new_msg = length (heap s2);
          s3 = s2\<lparr>heap := heap s2 @ [(copy_message msg)\<lparr>to := map fst key_addrs\<rparr>]\<rparr>
      in keyed_loop env msg new_msg key_addrs s3 log)"

fun messages_loop ::
  "env \<Rightarrow> message list \<Rightarrow> loop_state \<Rightarrow> gpg_log \<Rightarrow> (error + loop_state) \<times> gpg_log" where
  "messages_loop env [] s log = (Inr s, log)"
| "messages_loop env (msg # rest) s log =
     (case process_message env msg s log of
        (Inl e, log') \<Rightarrow> (Inl e, log')
      | (Inr s', log') \<Rightarrow> messages_loop env rest s' log')"

text \<open>
  \<open>encrypt_messages_lists\<close> is \<open>encrypt_messages\<close> up to its \<open>return\<close>: the two local
  lists, each reference read in the final store. \<open>encrypt_messages\<close> returns their
  concatenation.
\<close>

definition encrypt_messages_lists ::
  "env \<Rightarrow> message list \<Rightarrow> gpg_log \<Rightarrow> (error + message list \<times> message list) \<times> gpg_log" where
  "encrypt_messages_lists env email_messages log =
     (case messages_loop env email_messages
             \<lparr>unencrypted_messages = [], encrypted_messages = [], heap = []\<rparr> log of
        (Inl e, log') \<Rightarrow> (Inl e, log')
      | (Inr s, log') \<Rightarrow>
          (Inr (map (\<lambda>r. heap s ! r) (unencrypted_messages s),
                map (\<lambda>r. heap s ! r) (encrypted_messages s)), log'))"

definition encrypt_messages ::
  "env \<Rightarrow> message list \<Rightarrow> gpg_log \<Rightarrow> (error + message list) \<times> gpg_log" where
  "encrypt_messages env email_messages log =
     (case encrypt_messages_lists env email_messages log of
        (Inl e, log') \<Rightarrow> (Inl e, log')
      | (Inr (unencrypted, encrypted), log') \<Rightarrow> (Inr (unencrypted @ encrypted), log'))"

text \<open>
  \<open>sign_messages\<close> replaces the body of each message in turn and stops at the first
  \<open>sign\<close> that raises.
\<close>

fun sign_messages :: "env \<Rightarrow> message list \<Rightarrow> error + message list" where
  "sign_messages env [] = Inr []"
| "sign_messages env (msg # rest) =
     (case sign env (body msg) of
        Inl e \<Rightarrow> Inl e
      | Inr b \<Rightarrow>
          (case sign_messages env rest of
             Inl e \<Rightarrow> Inl e
           | Inr ms \<Rightarrow> Inr (msg\<lparr>body := b\<rparr> # ms)))"

text \<open>
  The two mixins. \<open>super_send\<close> is the \<open>send_messages\<close> of the transport class behind
  the mixin; it returns the number of messages sent or raises. Neither mixin has a
  \<open>return\<close> statement, so a call that does not raise returns \<open>None\<close>.
\<close>

definition Encrypting_send_messages ::
  "env \<Rightarrow> (message list \<Rightarrow> error + nat) \<Rightarrow> message list \<Rightarrow> gpg_log \<Rightarrow>
   (error + nat option) \<times> gpg_log" where
  "Encrypting_send_messages env super_send email_messages log =
     (if USE_GNUPG env
      then (case encrypt_messages env email_messages log of
              (Inl e, log') \<Rightarrow> (Inl e, log')
            | (Inr email_messages', log') \<Rightarrow>
                (case super_send email_messages' of
                   Inl e \<Rightarrow> (Inl e, log')
                 | Inr n \<Rightarrow> (Inr None, log')))
      else (case super_send email_messages of
              Inl e \<Rightarrow> (Inl e, log)
            | Inr n \<Rightarrow> (Inr None, log)))"

definition Signing_send_messages ::
  "env \<Rightarrow> (message list \<Rightarrow> error + nat) \<Rightarrow> message list \<Rightarrow> error + nat option" where
  "Signing_send_messages env super_send email_messages =
     (if USE_GNUPG env
      then (case sign_messages env email_messages of
              Inl e \<Rightarrow> Inl e
            | Inr email_messages' \<Rightarrow>
                (case super_send email_messages' of Inl e \<Rightarrow> Inl e | Inr n \<Rightarrow> Inr None))
      else (case super_send email_messages of Inl e \<Rightarrow> Inl e | Inr n \<Rightarrow> Inr None))"

section \<open>The loops on values\<close>

text \<open>
  The store is only needed to say which list entries are the same object. The
  definitions below describe one input message's share of the two lists without it;
  they are proved equal to the loops above, and the theorems on \<open>encrypt_messages\<close> go
  through them.

  \<open>address_fold\<close> is the loop over \<open>key_addrs.items()\<close> on the value of \<open>new_msg\<close>,
  for a message that is not flagged.
\<close>

fun address_fold ::
  "env \<Rightarrow> (string \<times> bool) list \<Rightarrow> message \<Rightarrow> gpg_log \<Rightarrow> (error + message) \<times> gpg_log" where
  "address_fold env [] m log = (Inr m, log)"
| "address_fold env ((address, use_asc) # rest) m log =
     (case encrypt_for_address env address use_asc m log of
        (Inl e, log') \<Rightarrow> (Inl e, log')
      | (Inr m', log') \<Rightarrow> address_fold env rest m' log')"

text \<open>
  The body of \<open>new_msg\<close> after the body step of one pass (lines 136 to 139) that does
  not raise: the ciphertext, or the body as it was when \<open>encrypt\<close> failed and the handler
  returned. \<open>body_calls\<close> lists the engine calls of the body steps of successive
  passes, each on the body the pass before it left.
\<close>

definition body_after :: "env \<Rightarrow> string \<Rightarrow> string \<Rightarrow> string" where
  "body_after env b address =
     (case fst (encrypt env (Str b) address []) of Inl e \<Rightarrow> b | Inr c \<Rightarrow> c)"

fun body_calls :: "env \<Rightarrow> string \<Rightarrow> string list \<Rightarrow> gpg_log" where
  "body_calls env b [] = []"
| "body_calls env b (address # rest) =
     (Str b, address) # body_calls env (body_after env b address) rest"

definition keyless_to :: "env \<Rightarrow> message \<Rightarrow> string list" where
  "keyless_to env msg =
     filter (\<lambda>addr. addr \<notin> set (map fst (key_addrs_of env msg))) (to msg)"

definition keyed_to :: "env \<Rightarrow> message \<Rightarrow> string list" where
  "keyed_to env msg = map fst (key_addrs_of env msg)"

definition unencrypted_copies :: "env \<Rightarrow> message \<Rightarrow> message list" where
  "unencrypted_copies env msg =
     (if keyless_to env msg \<noteq> [] then [(copy_message msg)\<lparr>to := keyless_to env msg\<rparr>] else [])
     @ (if do_not_encrypt_this_message msg
        then replicate (length (key_addrs_of env msg))
               ((copy_message msg)\<lparr>to := keyed_to env msg\<rparr>)
        else [])"

definition encrypted_copies ::
  "env \<Rightarrow> message \<Rightarrow> gpg_log \<Rightarrow> (error + message list) \<times> gpg_log" where
  "encrypted_copies env msg log =
     (if do_not_encrypt_this_message msg then (Inr [], log)
      else (case address_fold env (key_addrs_of env msg)
                   ((copy_message msg)\<lparr>to := keyed_to env msg\<rparr>) log of
              (Inl e, log') \<Rightarrow> (Inl e, log')
            | (Inr m, log') \<Rightarrow> (Inr (replicate (length (key_addrs_of env msg)) m), log')))"

fun batch_copies ::
  "env \<Rightarrow> message list \<Rightarrow> gpg_log \<Rightarrow> (error + message list \<times> message list) \<times> gpg_log" where
  "batch_copies env [] log = (Inr ([], []), log)"
| "batch_copies env (msg # rest) log =
     (case encrypted_copies env msg log of
        (Inl e, log') \<Rightarrow> (Inl e, log')
      | (Inr es, log') \<Rightarrow>
          (case batch_copies env rest log' of
             (Inl e, log'') \<Rightarrow> (Inl e, log'')
           | (Inr (us', es'), log'') \<Rightarrow>
               (Inr (unencrypted_copies env msg @ us', es @ es'), log'')))"

text \<open>
  The two lists of a loop state read in its store, and the states whose references
  all point into the store.
\<close>

definition unencrypted_view :: "loop_state \<Rightarrow> message list" where
  "unencrypted_view s = map (\<lambda>r. heap s ! r) (unencrypted_messages s)"

definition encrypted_view :: "loop_state \<Rightarrow> message list" where
  "encrypted_view s = map (\<lambda>r. heap s ! r) (encrypted_messages s)"

definition refs_ok :: "loop_state \<Rightarrow> bool" where
  "refs_ok s \<longleftrightarrow>
     (\<forall>r \<in> set (unencrypted_messages s). r < length (heap s)) \<and>
     (\<forall>r \<in> set (encrypted_messages s). r < length (heap s))"

text \<open>
  Two conditions under which nothing in \<open>encrypt_messages\<close> raises: every bare file
  name among the attachments can be opened, and the engine never reports a failure nor
  an empty ciphertext for a plaintext that \<open>encrypt\<close> takes to be non-empty.
\<close>

definition readable :: "env \<Rightarrow> attachment \<Rightarrow> bool" where
  "readable env a = (case a of Filename path \<Rightarrow> open_rb env path \<noteq> None | Triple f c m \<Rightarrow> True)"

definition engine_reliable :: "env \<Rightarrow> bool" where
  "engine_reliable env \<longleftrightarrow>
     (\<forall>text addr. ok (gpg_encrypt env text addr) \<and>
                  \<not> (data (gpg_encrypt env text addr) = [] \<and> differs_from_empty_str text))"

section \<open>A small installation\<close>

text \<open>
  An engine that wraps the plaintext in the recipient's address, refuses the address
  \<open>bad@x.com\<close> and signs everything but the text \<open>unsignable\<close>; a key table with
  three addresses; one readable file; handlers that return normally.
\<close>

definition demo_encrypt :: "plaintext \<Rightarrow> string \<Rightarrow> gpg_result" where
  "demo_encrypt text addr =
     (if addr = ''bad@x.com''
      then \<lparr>ok = False, status = ''invalid recipient'', data = []\<rparr>
      else \<lparr>ok = True, status = ''encryption ok'',
            data = addr @ ''{'' @ characters text @ ''}''\<rparr>)"

definition demo_sign :: "string \<Rightarrow> gpg_result" where
  "demo_sign text =
     (if text = ''unsignable''
      then \<lparr>ok = False, status = ''bad passphrase'', data = []\<rparr>
      else \<lparr>ok = True, status = ''signature created'', data = ''signed{'' @ text @ ''}''\<rparr>)"

definition demo_env :: env where
  "demo_env =
     \<lparr>gpg_encrypt = demo_encrypt,
      gpg_sign = demo_sign,
      Address_objects = [(''b@x.com'', True), (''c@x.com'', False), (''bad@x.com'', False)],
      open_rb = (\<lambda>path. if path = ''/srv/report.pdf'' then Some ''PDF'' else None),
      handle_failed_message_encryption = (\<lambda>e. None),
      handle_failed_alternative_encryption = (\<lambda>e. None),
      handle_failed_attachment_encryption = (\<lambda>e. None),
      USE_GNUPG = True\<rparr>"

text \<open>
  The same installation with an engine that hands the plaintext back: its result for
  an empty plaintext is ok and empty.
\<close>

definition echo_encrypt :: "plaintext \<Rightarrow> string \<Rightarrow> gpg_result" where
  "echo_encrypt text addr = \<lparr>ok = True, status = ''encryption ok'', data = characters text\<rparr>"

definition echo_env :: env where
  "echo_env = demo_env\<lparr>gpg_encrypt := echo_encrypt\<rparr>"

definition demo_msg :: "string list \<Rightarrow> bool \<Rightarrow> message" where
  "demo_msg recipients flag =
     \<lparr>to = recipients, cc = [], bcc = [], reply_to = [],
      from_email = ''s@x.com'', subject = ''hi'', body = ''hello'',
      alternatives = [], attachments = [],
      extra_headers = [], connection = 0,
      do_not_encrypt_this_message = flag\<rparr>"

section \<open>The loops on the store and the loops on values agree\<close>

text \<open>
  A flagged message only appends references; an unflagged one rewrites the single
  object behind \<open>new_msg\<close> once per address and appends a reference to it each time.
\<close>

lemma keyed_loop_flagged:
  "do_not_encrypt_this_message msg \<Longrightarrow>
   keyed_loop env msg n kas s log =
     (Inr (s\<lparr>unencrypted_messages := unencrypted_messages s @ replicate (length kas) n\<rparr>), log)"
proof (induction kas arbitrary: s)
  case Nil
  then show ?case by simp
next
  case (Cons ka kas)
  obtain address use_asc where ka: "ka = (address, use_asc)" by (cases ka)
  show ?case using Cons by (simp add: ka replicate_app_Cons_same)
qed

lemma keyed_loop_unflagged:
  "\<not> do_not_encrypt_this_message msg \<Longrightarrow> n < length (heap s) \<Longrightarrow>
   keyed_loop env msg n kas s log =
     (case address_fold env kas (heap s ! n) log of
        (Inl e, log') \<Rightarrow> (Inl e, log')
      | (Inr m, log') \<Rightarrow>
          (Inr (s\<lparr>heap := (heap s)[n := m],
                  encrypted_messages := encrypted_messages s @ replicate (length kas) n\<rparr>), log'))"
proof (induction kas arbitrary: s log)
  case Nil
  then show ?case by simp
next
  case (Cons ka kas)
  obtain address use_asc where ka: "ka = (address, use_asc)" by (cases ka)
  show ?case
  proof (cases "encrypt_for_address env address use_asc (heap s ! n) log")
    case (Pair r log1)
    show ?thesis
    proof (cases r)
      case (Inl e)
      then show ?thesis using Cons.prems Pair by (simp add: ka)
    next
      case (Inr m)
      have "n < length (heap (s\<lparr>heap := (heap s)[n := m],
                 encrypted_messages := encrypted_messages s @ [n]\<rparr>))"
        using Cons.prems by simp
      from Cons.IH[OF Cons.prems(1) this, of log1]
      show ?thesis using Cons.prems Pair Inr
        by (simp add: ka replicate_app_Cons_same split: prod.splits sum.splits)
    qed
  qed
qed

lemma old_refs_kept:
  "\<forall>r \<in> set rs. r < length h \<Longrightarrow> map (\<lambda>r. (h @ ext) ! r) rs = map (\<lambda>r. h ! r) rs"
  by (induction rs) (simp_all add: nth_append)

lemma process_message_flagged:
  assumes "do_not_encrypt_this_message msg"
  shows "process_message env msg s log =
     (Inr \<lparr>unencrypted_messages =
             unencrypted_messages s
             @ (if keyless_to env msg \<noteq> [] then [length (heap s)] else [])
             @ replicate (length (key_addrs_of env msg)) (Suc (length (heap s))),
           encrypted_messages = encrypted_messages s,
           heap = heap s @ [(copy_message msg)\<lparr>to := keyless_to env msg\<rparr>,
                            (copy_message msg)\<lparr>to := keyed_to env msg\<rparr>]\<rparr>, log)"
  using assms
  by (simp add: process_message_def Let_def keyed_loop_flagged keyless_to_def keyed_to_def)

lemma process_message_unflagged:
  assumes "\<not> do_not_encrypt_this_message msg"
  shows "process_message env msg s log =
     (case address_fold env (key_addrs_of env msg)
             ((copy_message msg)\<lparr>to := keyed_to env msg\<rparr>) log of
        (Inl e, log') \<Rightarrow> (Inl e, log')
      | (Inr m, log') \<Rightarrow>
          (Inr \<lparr>unencrypted_messages =
                  unencrypted_messages s
                  @ (if keyless_to env msg \<noteq> [] then [length (heap s)] else []),
                encrypted_messages =
                  encrypted_messages s
                  @ replicate (length (key_addrs_of env msg)) (Suc (length (heap s))),
                heap = heap s @ [(copy_message msg)\<lparr>to := keyless_to env msg\<rparr>, m]\<rparr>, log'))"
  using assms
  by (simp add: process_message_def Let_def keyed_loop_unflagged keyless_to_def keyed_to_def
        nth_append list_update_append split: prod.splits sum.splits)

lemma process_message_error:
  "process_message env msg s log = (Inl e, log') \<longleftrightarrow>
   encrypted_copies env msg log = (Inl e, log')"
  by (cases "do_not_encrypt_this_message msg")
     (simp_all add: process_message_flagged process_message_unflagged encrypted_copies_def
        split: prod.splits sum.splits)

lemma process_message_result:
  assumes "refs_ok s" and "process_message env msg s log = (Inr s', log')"
  shows "refs_ok s' \<and>
         (\<exists>es. encrypted_copies env msg log = (Inr es, log') \<and>
               unencrypted_view s' = unencrypted_view s @ unencrypted_copies env msg \<and>
               encrypted_view s' = encrypted_view s @ es)"
proof (cases "do_not_encrypt_this_message msg")
  case True
  from assms(2) have s': "s' = \<lparr>unencrypted_messages =
             unencrypted_messages s
             @ (if keyless_to env msg \<noteq> [] then [length (heap s)] else [])
             @ replicate (length (key_addrs_of env msg)) (Suc (length (heap s))),
           encrypted_messages = encrypted_messages s,
           heap = heap s @ [(copy_message msg)\<lparr>to := keyless_to env msg\<rparr>,
                            (copy_message msg)\<lparr>to := keyed_to env msg\<rparr>]\<rparr>"
    and log': "log' = log"
    by (simp_all add: process_message_flagged[OF True])
  have ok: "refs_ok s'" using assms(1)
    by (auto simp: s' refs_ok_def intro: less_SucI)
  have e: "encrypted_copies env msg log = (Inr [], log')"
    by (simp add: encrypted_copies_def True log')
  have u: "unencrypted_view s' = unencrypted_view s @ unencrypted_copies env msg"
    using assms(1)
    by (simp add: s' unencrypted_view_def unencrypted_copies_def True refs_ok_def
          old_refs_kept nth_append map_replicate_const)
  have v: "encrypted_view s' = encrypted_view s"
    using assms(1)
    by (simp add: s' encrypted_view_def refs_ok_def old_refs_kept)
  show ?thesis using ok e u v by simp
next
  case False
  obtain m where fold: "address_fold env (key_addrs_of env msg)
                  ((copy_message msg)\<lparr>to := keyed_to env msg\<rparr>) log = (Inr m, log')"
    and s': "s' = \<lparr>unencrypted_messages =
                  unencrypted_messages s
                  @ (if keyless_to env msg \<noteq> [] then [length (heap s)] else []),
                encrypted_messages =
                  encrypted_messages s
                  @ replicate (length (key_addrs_of env msg)) (Suc (length (heap s))),
                heap = heap s @ [(copy_message msg)\<lparr>to := keyless_to env msg\<rparr>, m]\<rparr>"
    using assms(2)
    by (auto simp: process_message_unflagged[OF False] split: prod.splits sum.splits)
  have ok: "refs_ok s'" using assms(1)
    by (auto simp: s' refs_ok_def intro: less_SucI)
  have e: "encrypted_copies env msg log = (Inr (replicate (length (key_addrs_of env msg)) m), log')"
    by (simp add: encrypted_copies_def False fold)
  have u: "unencrypted_view s' = unencrypted_view s @ unencrypted_copies env msg"
    using assms(1)
    by (simp add: s' unencrypted_view_def unencrypted_copies_def False refs_ok_def
          old_refs_kept nth_append)
  have v: "encrypted_view s' = encrypted_view s @ replicate (length (key_addrs_of env msg)) m"
    using assms(1)
    by (simp add: s' encrypted_view_def refs_ok_def old_refs_kept map_replicate_const
            nth_append)
  show ?thesis using ok e u v by simp
qed

lemma messages_loop_error:
  "refs_ok s \<Longrightarrow> messages_loop env msgs s log = (Inl e, log') \<Longrightarrow>
   batch_copies env msgs log = (Inl e, log')"
proof (induction msgs arbitrary: s log)
  case Nil
  then show ?case by simp
next
  case (Cons msg msgs)
  show ?case
  proof (cases "process_message env msg s log")
    case (Pair r log1)
    show ?thesis
    proof (cases r)
      case (Inl e1)
      with Pair Cons.prems show ?thesis
        by (simp add: process_message_error[THEN iffD1])
    next
      case (Inr s1)
      from process_message_result[OF Cons.prems(1) Pair[unfolded Inr]]
      obtain es where ok1: "refs_ok s1" and e: "encrypted_copies env msg log = (Inr es, log1)"
        by blast
      from Cons.prems(2) Pair Inr have "messages_loop env msgs s1 log1 = (Inl e, log')" by simp
      from Cons.IH[OF ok1 this] show ?thesis by (simp add: e)
    qed
  qed
qed

lemma messages_loop_result:
  "refs_ok s \<Longrightarrow> messages_loop env msgs s log = (Inr s', log') \<Longrightarrow>
   \<exists>us es. batch_copies env msgs log = (Inr (us, es), log') \<and>
           unencrypted_view s' = unencrypted_view s @ us \<and>
           encrypted_view s' = encrypted_view s @ es"
proof (induction msgs arbitrary: s log)
  case Nil
  then show ?case by simp
next
  case (Cons msg msgs)
  show ?case
  proof (cases "process_message env msg s log")
    case (Pair r log1)
    show ?thesis
    proof (cases r)
      case (Inl e1)
      with Pair Cons.prems show ?thesis by simp
    next
      case (Inr s1)
      from process_message_result[OF Cons.prems(1) Pair[unfolded Inr]]
      obtain es1 where ok1: "refs_ok s1" and e: "encrypted_copies env msg log = (Inr es1, log1)"
        and u1: "unencrypted_view s1 = unencrypted_view s @ unencrypted_copies env msg"
        and v1: "encrypted_view s1 = encrypted_view s @ es1"
        by blast
      from Cons.prems(2) Pair Inr have "messages_loop env msgs s1 log1 = (Inr s', log')" by simp
      from Cons.IH[OF ok1 this] obtain us es where
        "batch_copies env msgs log1 = (Inr (us, es), log')"
        "unencrypted_view s' = unencrypted_view s1 @ us"
        "encrypted_view s' = encrypted_view s1 @ es" by blast
      then show ?thesis by (simp add: e u1 v1)
    qed
  qed
qed

lemma encrypt_messages_lists_eq:
  "encrypt_messages_lists env msgs log = batch_copies env msgs log"
proof (cases "messages_loop env msgs
             \<lparr>unencrypted_messages = [], encrypted_messages = [], heap = []\<rparr> log")
  case (Pair r log')
  have ok: "refs_ok \<lparr>unencrypted_messages = [], encrypted_messages = [], heap = []\<rparr>"
    by (simp add: refs_ok_def)
  show ?thesis
  proof (cases r)
    case (Inl e)
    from messages_loop_error[OF ok Pair[unfolded Inl]] Pair Inl show ?thesis
      by (simp add: encrypt_messages_lists_def)
  next
    case (Inr s')
    from messages_loop_result[OF ok Pair[unfolded Inr]] Pair Inr show ?thesis
      by (auto simp: encrypt_messages_lists_def unencrypted_view_def encrypted_view_def)
  qed
qed

section \<open>Facts about the loops on values\<close>

subsection \<open>The keyed and the keyless addresses\<close>

lemma py_dict_acc:
  "distinct (map fst d) \<Longrightarrow>
   distinct (map fst (foldl (\<lambda>d (k, v). AList.update k v d) d pairs)) \<and>
   fst ` set (foldl (\<lambda>d (k, v). AList.update k v d) d pairs) = fst ` set d \<union> fst ` set pairs"
proof (induction pairs arbitrary: d)
  case Nil
  then show ?case by simp
next
  case (Cons p pairs)
  obtain k v where p: "p = (k, v)" by (cases p)
  have "distinct (map fst (AList.update k v d))" using Cons.prems by (simp add: distinct_update)
  from Cons.IH[OF this] show ?case by (auto simp: p dom_update)
qed

lemma distinct_keyed_to: "distinct (keyed_to env msg)"
  using py_dict_acc[of "[]" "filter (\<lambda>(address, use_asc). address \<in> set (to msg)) (Address_objects env)"]
  by (simp add: keyed_to_def key_addrs_of_def py_dict_def)

lemma set_keyed_to:
  "set (keyed_to env msg) = set (to msg) \<inter> fst ` set (Address_objects env)"
  using py_dict_acc[of "[]" "filter (\<lambda>(address, use_asc). address \<in> set (to msg)) (Address_objects env)"]
  by (auto simp: keyed_to_def key_addrs_of_def py_dict_def)

lemma keyless_to_eq:
  "keyless_to env msg = filter (\<lambda>addr. addr \<notin> fst ` set (Address_objects env)) (to msg)"
proof -
  have "set (map fst (key_addrs_of env msg)) = set (to msg) \<inter> fst ` set (Address_objects env)"
    using set_keyed_to[of env msg] by (simp add: keyed_to_def)
  then show ?thesis unfolding keyless_to_def by (auto intro: filter_cong)
qed

lemma length_key_addrs: "length (key_addrs_of env msg) = length (keyed_to env msg)"
  by (simp add: keyed_to_def)

subsection \<open>The result does not depend on the log, and the log only grows\<close>

lemma encrypt_log_eq:
  "encrypt env text addr log = (fst (encrypt env text addr []), log @ [(text, addr)])"
  by (simp add: encrypt_def Let_def)

lemma encrypt_attachment_log:
  "encrypt_attachment env address a use_asc log =
     (case encrypt_attachment env address a use_asc [] of (r, calls) \<Rightarrow> (r, log @ calls))"
proof (cases "resolve_attachment env a")
  case (Inl e)
  then show ?thesis by (simp add: encrypt_attachment_def)
next
  case (Inr t)
  obtain f c m where t: "t = (f, c, m)" by (cases t)
  show ?thesis
    using Inr t encrypt_log_eq[of env c address log] encrypt_log_eq[of env c address "[]"]
    by (cases "fst (encrypt env c address [])")
       (simp_all add: encrypt_attachment_def split: option.splits)
qed

lemma encrypt_alternatives_log:
  "encrypt_alternatives env address alts done log =
     (case encrypt_alternatives env address alts done [] of (r, calls) \<Rightarrow> (r, log @ calls))"
proof (induction alts arbitrary: "done" log)
  case Nil
  then show ?case by simp
next
  case (Cons p alts)
  obtain alt mimetype where p: "p = (alt, mimetype)" by (cases p)
  show ?case
  proof (cases "mimetype = ''application/gpg-encrypted''")
    case True
    then show ?thesis using Cons.IH[of "done @ [(alt, mimetype)]" log] by (simp add: p)
  next
    case False
    note a = encrypt_log_eq[of env "Str alt" address log] and b = encrypt_log_eq[of env "Str alt" address "[]"]
    show ?thesis
    proof (cases "fst (encrypt env (Str alt) address [])")
      case (Inl e)
      show ?thesis
      proof (cases "handle_failed_alternative_encryption env e")
        case None
        show ?thesis
          using False a b Inl None Cons.IH[of "done" "log @ [(Str alt, address)]"]
            Cons.IH[of "done" "[(Str alt, address)]"]
          by (simp add: p split: prod.splits)
      next
        case (Some e')
        then show ?thesis using False a b Inl by (simp add: p)
      qed
    next
      case (Inr c)
      show ?thesis
        using False a b Inr
          Cons.IH[of "done @ [(c, ''application/gpg-encrypted'')]" "log @ [(Str alt, address)]"]
          Cons.IH[of "done @ [(c, ''application/gpg-encrypted'')]" "[(Str alt, address)]"]
        by (simp add: p split: prod.splits)
    qed
  qed
qed

lemma encrypt_attachments_log:
  "encrypt_attachments env address use_asc atts done log =
     (case encrypt_attachments env address use_asc atts done [] of (r, calls) \<Rightarrow> (r, log @ calls))"
proof (induction atts arbitrary: "done" log)
  case Nil
  then show ?case by simp
next
  case (Cons a atts)
  obtain r calls where e: "encrypt_attachment env address a use_asc [] = (r, calls)"
    by (cases "encrypt_attachment env address a use_asc []")
  with encrypt_attachment_log[of env address a use_asc log]
  have e': "encrypt_attachment env address a use_asc log = (r, log @ calls)" by simp
  show ?case
  proof (cases r)
    case (Inl x)
    then show ?thesis using e e' by simp
  next
    case (Inr a')
    then show ?thesis
      using e e' Cons.IH[of "done @ [a']" "log @ calls"] Cons.IH[of "done @ [a']" calls]
      by (simp split: prod.splits)
  qed
qed

lemma encrypt_for_address_log:
  "encrypt_for_address env address use_asc m log =
     (case encrypt_for_address env address use_asc m [] of (r, calls) \<Rightarrow> (r, log @ calls))"
proof -
  note a = encrypt_log_eq[of env "Str (body m)" address log]
    and b = encrypt_log_eq[of env "Str (body m)" address "[]"]
  define l1 where "l1 = log @ [(Str (body m), address)]"
  define l0 where "l0 = [(Str (body m), address)]"
  have step:
    "\<And>m1 :: message. (case encrypt_alternatives env address (alternatives m1) [] l1 of
             (Inl e, log2) \<Rightarrow> (Inl e, log2)
           | (Inr alts, log2) \<Rightarrow>
               (case encrypt_attachments env address use_asc (attachments m1) [] log2 of
                  (Inl e, log3) \<Rightarrow> (Inl e, log3)
                | (Inr atts, log3) \<Rightarrow>
                    (Inr (m1\<lparr>alternatives := alts, attachments := atts\<rparr>), log3)))
        = (case (case encrypt_alternatives env address (alternatives m1) [] l0 of
             (Inl e, log2) \<Rightarrow> (Inl e, log2)
           | (Inr alts, log2) \<Rightarrow>
               (case encrypt_attachments env address use_asc (attachments m1) [] log2 of
                  (Inl e, log3) \<Rightarrow> (Inl e, log3)
                | (Inr atts, log3) \<Rightarrow>
                    (Inr (m1\<lparr>alternatives := alts, attachments := atts\<rparr>), log3))) of
             (r, calls) \<Rightarrow> (r, log @ calls))"
  proof -
    fix m1 :: message
    obtain r2 c2 where alt0: "encrypt_alternatives env address (alternatives m1) [] [] = (r2, c2)"
      by (cases "encrypt_alternatives env address (alternatives m1) [] []")
    have alt1: "encrypt_alternatives env address (alternatives m1) [] l1 = (r2, l1 @ c2)"
      using encrypt_alternatives_log[of env address "alternatives m1" "[]" l1] alt0 by simp
    have alt2: "encrypt_alternatives env address (alternatives m1) [] l0 = (r2, l0 @ c2)"
      using encrypt_alternatives_log[of env address "alternatives m1" "[]" l0] alt0 by simp
    obtain r3 c3 where att0: "encrypt_attachments env address use_asc (attachments m1) [] [] = (r3, c3)"
      by (cases "encrypt_attachments env address use_asc (attachments m1) [] []")
    have att1: "encrypt_attachments env address use_asc (attachments m1) [] (l1 @ c2) = (r3, (l1 @ c2) @ c3)"
      using encrypt_attachments_log[of env address use_asc "attachments m1" "[]" "l1 @ c2"] att0 by simp
    have att2: "encrypt_attachments env address use_asc (attachments m1) [] (l0 @ c2) = (r3, (l0 @ c2) @ c3)"
      using encrypt_attachments_log[of env address use_asc "attachments m1" "[]" "l0 @ c2"] att0 by simp
    have l1: "l1 = log @ l0" by (simp add: l1_def l0_def)
    show "?thesis m1"
      by (cases r2; cases r3; simp add: alt1 alt2 att1 att2; simp add: l1)
  qed
  show ?thesis
  proof (cases "fst (encrypt env (Str (body m)) address [])")
    case (Inl e)
    show ?thesis
    proof (cases "handle_failed_message_encryption env e")
      case None
      show ?thesis
        unfolding encrypt_for_address_def using a b Inl None step[of m]
        by (simp add: l1_def l0_def)
    next
      case (Some e')
      then show ?thesis unfolding encrypt_for_address_def using a b Inl by simp
    qed
  next
    case (Inr c)
    show ?thesis
      unfolding encrypt_for_address_def using a b Inr step[of "m\<lparr>body := c\<rparr>"]
      by (simp add: l1_def l0_def)
  qed
qed

lemma encrypt_for_address_result:
  assumes "encrypt_for_address env address use_asc m log = (Inr m', log')"
  shows "to m' = to m \<and> body m' = body_after env (body m) address \<and>
         (\<exists>more. log' = log @ (Str (body m), address) # more)"
proof -
  note a = encrypt_log_eq[of env "Str (body m)" address log]
  have alts: "\<And>x d l r l'. encrypt_alternatives env address x d l = (r, l') \<Longrightarrow> \<exists>c. l' = l @ c"
  proof -
    fix x d l r l'
    assume h: "encrypt_alternatives env address x d l = (r, l')"
    show "\<exists>c. l' = l @ c"
      using encrypt_alternatives_log[of env address x d l] h
      by (cases "encrypt_alternatives env address x d []") auto
  qed
  have atts: "\<And>x d l r l'. encrypt_attachments env address use_asc x d l = (r, l') \<Longrightarrow> \<exists>c. l' = l @ c"
  proof -
    fix x d l r l'
    assume h: "encrypt_attachments env address use_asc x d l = (r, l')"
    show "\<exists>c. l' = l @ c"
      using encrypt_attachments_log[of env address use_asc x d l] h
      by (cases "encrypt_attachments env address use_asc x d []") auto
  qed
  show ?thesis
    using assms a unfolding encrypt_for_address_def body_after_def
    by (cases "fst (encrypt env (Str (body m)) address [])")
       (auto split: option.splits prod.splits sum.splits dest!: alts atts)
qed

lemma address_fold_log:
  "address_fold env kas m log =
     (case address_fold env kas m [] of (r, calls) \<Rightarrow> (r, log @ calls))"
proof (induction kas arbitrary: m log)
  case Nil
  then show ?case by simp
next
  case (Cons ka kas)
  obtain address use_asc where ka: "ka = (address, use_asc)" by (cases ka)
  obtain r calls where e: "encrypt_for_address env address use_asc m [] = (r, calls)"
    by (cases "encrypt_for_address env address use_asc m []")
  with encrypt_for_address_log[of env address use_asc m log]
  have e': "encrypt_for_address env address use_asc m log = (r, log @ calls)" by simp
  show ?case
  proof (cases r)
    case (Inl x)
    then show ?thesis using e e' by (simp add: ka)
  next
    case (Inr m')
    then show ?thesis
      using e e' Cons.IH[of m' "log @ calls"] Cons.IH[of m' calls]
      by (simp add: ka split: prod.splits)
  qed
qed

lemma address_fold_result:
  "address_fold env kas m log = (Inr m', log') \<Longrightarrow>
   to m' = to m \<and> body m' = foldl (body_after env) (body m) (map fst kas) \<and>
   (\<exists>calls. log' = log @ calls \<and> subseq (body_calls env (body m) (map fst kas)) calls)"
proof (induction kas arbitrary: m log)
  case Nil
  then show ?case by simp
next
  case (Cons ka kas)
  obtain address use_asc where ka: "ka = (address, use_asc)" by (cases ka)
  from Cons.prems obtain m1 log1 where
    e: "encrypt_for_address env address use_asc m log = (Inr m1, log1)"
    and f: "address_fold env kas m1 log1 = (Inr m', log')"
    by (auto simp: ka split: prod.splits sum.splits)
  from encrypt_for_address_result[OF e] obtain more where
    t1: "to m1 = to m" and b1: "body m1 = body_after env (body m) address"
    and l1: "log1 = log @ (Str (body m), address) # more" by blast
  from Cons.IH[OF f] obtain calls where
    t2: "to m' = to m1" and b2: "body m' = foldl (body_after env) (body m1) (map fst kas)"
    and l2: "log' = log1 @ calls" and s: "subseq (body_calls env (body m1) (map fst kas)) calls"
    by blast
  have "subseq (body_calls env (body m) (map fst (ka # kas))) ((Str (body m), address) # more @ calls)"
    using s by (simp add: ka b1 list_emb_append2)
  moreover have "log' = log @ (Str (body m), address) # more @ calls" by (simp add: l1 l2)
  ultimately show ?case using t1 t2 b1 b2 by (auto simp: ka)
qed

lemma encrypted_copies_log:
  "encrypted_copies env msg log =
     (case encrypted_copies env msg [] of (r, calls) \<Rightarrow> (r, log @ calls))"
proof (cases "do_not_encrypt_this_message msg")
  case True
  then show ?thesis by (simp add: encrypted_copies_def)
next
  case False
  obtain r calls where e: "address_fold env (key_addrs_of env msg)
      ((copy_message msg)\<lparr>to := keyed_to env msg\<rparr>) [] = (r, calls)"
    by (cases "address_fold env (key_addrs_of env msg) ((copy_message msg)\<lparr>to := keyed_to env msg\<rparr>) []")
  with address_fold_log[of env "key_addrs_of env msg" "(copy_message msg)\<lparr>to := keyed_to env msg\<rparr>" log]
  have "address_fold env (key_addrs_of env msg)
      ((copy_message msg)\<lparr>to := keyed_to env msg\<rparr>) log = (r, log @ calls)" by simp
  with e False show ?thesis by (cases r) (simp_all add: encrypted_copies_def)
qed

lemma batch_copies_log:
  "batch_copies env msgs log =
     (case batch_copies env msgs [] of (r, calls) \<Rightarrow> (r, log @ calls))"
proof (induction msgs arbitrary: log)
  case Nil
  then show ?case by simp
next
  case (Cons msg msgs)
  obtain r calls where e: "encrypted_copies env msg [] = (r, calls)"
    by (cases "encrypted_copies env msg []")
  with encrypted_copies_log[of env msg log]
  have e': "encrypted_copies env msg log = (r, log @ calls)" by simp
  show ?case
  proof (cases r)
    case (Inl x)
    then show ?thesis using e e' by simp
  next
    case (Inr es)
    then show ?thesis
      using e e' Cons.IH[of "log @ calls"] Cons.IH[of calls]
      by (simp split: prod.splits sum.splits)
  qed
qed

lemma batch_copies_append:
  "batch_copies env (xs @ ys) log =
     (case batch_copies env xs log of
        (Inl e, log1) \<Rightarrow> (Inl e, log1)
      | (Inr (us1, es1), log1) \<Rightarrow>
          (case batch_copies env ys log1 of
             (Inl e, log2) \<Rightarrow> (Inl e, log2)
           | (Inr (us2, es2), log2) \<Rightarrow> (Inr (us1 @ us2, es1 @ es2), log2)))"
proof (induction xs arbitrary: log)
  case Nil
  then show ?case by (simp split: prod.splits sum.splits)
next
  case (Cons x xs)
  show ?case
    by (simp add: Cons.IH split: prod.splits sum.splits)
qed

lemma batch_copies_single:
  "batch_copies env [msg] log =
     (case encrypted_copies env msg log of
        (Inl e, log') \<Rightarrow> (Inl e, log')
      | (Inr es, log') \<Rightarrow> (Inr (unencrypted_copies env msg, es), log'))"
  by (simp split: prod.splits sum.splits)

section \<open>The engine wrappers\<close>

text \<open>
  Claim C5. \<open>encrypt\<close> is to raise \<open>EncryptionFailedError\<close> if and only if the engine
  reports a result that is not ok, or an empty ciphertext for an input that is not
  empty, and otherwise to return the engine's ciphertext. It raises in one more case:
  for the empty byte string, the content of an empty file read by
  \<open>encrypt_attachment\<close>, with an engine whose result is ok and empty, the test
  \<open>text != ""\<close> compares bytes with a text string and holds, and \<open>encrypt\<close> raises
  although the input is empty. For the empty text string it returns the empty
  ciphertext.
\<close>

theorem encrypt_empty_bytes_raises:
  "ok (gpg_encrypt echo_env (Bytes []) ''b@x.com'') \<and>
   data (gpg_encrypt echo_env (Bytes []) ''b@x.com'') = [] \<and>
   characters (Bytes []) = [] \<and>
   fst (encrypt echo_env (Bytes []) ''b@x.com'' []) =
     Inl (EncryptionFailedError ''b@x.com'' ''encryption ok'') \<and>
   fst (encrypt echo_env (Str []) ''b@x.com'' []) = Inr []"
  by (simp add: encrypt_def echo_env_def echo_encrypt_def characters_def
        differs_from_empty_str_def)

theorem encrypt_empty_bytes_raises_witness:
  "fst (encrypt echo_env (Bytes []) ''b@x.com'' []) \<noteq>
     Inr (data (gpg_encrypt echo_env (Bytes []) ''b@x.com''))"
  using encrypt_empty_bytes_raises by simp

text \<open>
  The rest of the claim holds. For every plaintext, \<open>encrypt\<close> calls the engine once,
  on that plaintext and address; it raises nothing but \<open>EncryptionFailedError\<close>, with the
  address and the engine's status; it raises whenever the engine's result is not ok or
  is empty for a plaintext that has a character; and what it returns is the engine's
  ciphertext. For a text string it raises in no other case. For a byte string it
  raises exactly when the result is not ok or is empty.
\<close>

lemma encrypt_calls_once: "snd (encrypt env text addr log) = log @ [(text, addr)]"
  by (simp add: encrypt_def Let_def)

lemma encrypt_raises_only_EncryptionFailedError:
  "fst (encrypt env text addr log) = Inl e \<Longrightarrow>
   e = EncryptionFailedError addr (status (gpg_encrypt env text addr))"
  by (simp add: encrypt_def Let_def split: if_splits)

lemma encrypt_returns_ciphertext:
  "fst (encrypt env text addr log) = Inr c \<Longrightarrow> c = data (gpg_encrypt env text addr)"
  by (simp add: encrypt_def Let_def split: if_splits)

lemma encrypt_raises_if:
  "\<not> ok (gpg_encrypt env text addr) \<or>
   (data (gpg_encrypt env text addr) = [] \<and> characters text \<noteq> []) \<Longrightarrow>
   fst (encrypt env text addr log) =
     Inl (EncryptionFailedError addr (status (gpg_encrypt env text addr)))"
  by (cases "text") (auto simp: encrypt_def Let_def characters_def differs_from_empty_str_def)

lemma encrypt_str_raises_iff:
  "(\<exists>e. fst (encrypt env (Str s) addr log) = Inl e) \<longleftrightarrow>
   (\<not> ok (gpg_encrypt env (Str s) addr) \<or>
    (data (gpg_encrypt env (Str s) addr) = [] \<and> s \<noteq> []))"
  by (simp add: encrypt_def Let_def differs_from_empty_str_def)

lemma encrypt_bytes_raises_iff:
  "(\<exists>e. fst (encrypt env (Bytes b) addr log) = Inl e) \<longleftrightarrow>
   (\<not> ok (gpg_encrypt env (Bytes b) addr) \<or> data (gpg_encrypt env (Bytes b) addr) = [])"
  by (simp add: encrypt_def Let_def differs_from_empty_str_def)

text \<open>
  Claim C6. When the engine's signing status differs from \<open>signature created\<close>, \<open>sign\<close>
  is to fail with \<open>SigningFailedError\<close>. It does not: for the text \<open>unsignable\<close>, which
  the engine of the small installation refuses, \<open>sign\<close> raises \<open>NameError\<close>, and no
  \<open>SigningFailedError\<close>.
\<close>

theorem sign_raises_NameError:
  "status (gpg_sign demo_env ''unsignable'') \<noteq> ''signature created'' \<and>
   sign demo_env ''unsignable'' = Inl (NameError ''addr'') \<and>
   (\<forall>s. sign demo_env ''unsignable'' \<noteq> Inl (SigningFailedError s))"
  by (simp add: sign_def demo_env_def demo_sign_def)

text \<open>The other half of the claim holds, and no input makes \<open>sign\<close> raise the typed error.\<close>

lemma sign_created:
  "status (gpg_sign env text) = ''signature created'' \<Longrightarrow>
   sign env text = Inr (data (gpg_sign env text))"
  by (simp add: sign_def)

lemma sign_never_SigningFailedError: "sign env text \<noteq> Inl (SigningFailedError s)"
  by (simp add: sign_def Let_def)

section \<open>The attachment transform\<close>

text \<open>
  Claim C7. For every attachment that is not already encrypted, if \<open>encrypt\<close> fails and
  the attachment handler returns normally, \<open>encrypt_attachment\<close> has no result: the
  \<open>return\<close> reads \<open>encrypted_content\<close>, which was never assigned, and the call ends in
  \<open>UnboundLocalError\<close>; nothing is substituted for the attachment.
\<close>

theorem encrypt_attachment_unbound:
  assumes "resolve_attachment env attachment = Inr (filename, content, mimetype)"
      and "mimetype \<noteq> Some ''application/gpg-encrypted''"
      and "fst (encrypt env content address log) = Inl e"
      and "handle_failed_attachment_encryption env e = None"
  shows "fst (encrypt_attachment env address attachment use_asc log) =
           Inl (UnboundLocalError ''encrypted_content'')"
  using assms by (cases "encrypt env content address log") (simp add: encrypt_attachment_def)

theorem encrypt_attachment_unbound_witness:
  "fst (encrypt_attachment demo_env ''bad@x.com''
          (Triple (Some ''report.pdf'') (Bytes ''PDF'') (Some ''application/pdf'')) True [])
     = Inl (UnboundLocalError ''encrypted_content'')"
proof -
  have 1: "resolve_attachment demo_env
             (Triple (Some ''report.pdf'') (Bytes ''PDF'') (Some ''application/pdf''))
             = Inr (Some ''report.pdf'', Bytes ''PDF'', Some ''application/pdf'')"
    by (simp add: resolve_attachment_def)
  have 2: "Some ''application/pdf'' \<noteq> Some ''application/gpg-encrypted''" by simp
  have 3: "fst (encrypt demo_env (Bytes ''PDF'') ''bad@x.com'' []) =
             Inl (EncryptionFailedError ''bad@x.com'' ''invalid recipient'')"
    by (simp add: encrypt_def demo_env_def demo_encrypt_def)
  have 4: "handle_failed_attachment_encryption demo_env
             (EncryptionFailedError ''bad@x.com'' ''invalid recipient'') = None"
    by (simp add: demo_env_def)
  from encrypt_attachment_unbound[OF 1 2 3 4] show ?thesis .
qed

lemma encrypt_alternatives_append:
  "encrypt_alternatives env address (xs @ ys) done log =
     (case encrypt_alternatives env address xs done log of
        (Inl e, log') \<Rightarrow> (Inl e, log')
      | (Inr done', log') \<Rightarrow> encrypt_alternatives env address ys done' log')"
proof (induction xs arbitrary: "done" log)
  case Nil
  then show ?case by simp
next
  case (Cons p xs)
  obtain alt mimetype where p: "p = (alt, mimetype)" by (cases p)
  show ?case
    by (simp add: p Cons.IH split: prod.splits sum.splits option.splits)
qed

lemma encrypt_attachments_append:
  "encrypt_attachments env address use_asc (xs @ ys) done log =
     (case encrypt_attachments env address use_asc xs done log of
        (Inl e, log') \<Rightarrow> (Inl e, log')
      | (Inr done', log') \<Rightarrow> encrypt_attachments env address use_asc ys done' log')"
proof (induction xs arbitrary: "done" log)
  case Nil
  then show ?case by simp
next
  case (Cons a xs)
  show ?case
    by (simp add: Cons.IH split: prod.splits sum.splits)
qed

lemma encrypt_attachment_marked:
  "encrypt_attachment env address (Triple filename content (Some ''application/gpg-encrypted''))
       use_asc log
     = (Inr (Triple filename content (Some ''application/gpg-encrypted'')), log)"
  by (simp add: encrypt_attachment_def resolve_attachment_def)

lemma encrypt_attachment_result_marked:
  assumes "fst (encrypt_attachment env address a use_asc log) = Inr a'"
  shows "\<exists>filename content. a' = Triple filename content (Some ''application/gpg-encrypted'')"
proof (cases "resolve_attachment env a")
  case (Inl e)
  with assms show ?thesis by (simp add: encrypt_attachment_def)
next
  case (Inr t)
  obtain f c m where t: "t = (f, c, m)" by (cases t)
  show ?thesis
  proof (cases "m = Some ''application/gpg-encrypted''")
    case True
    with assms Inr t have "a' = a" by (simp add: encrypt_attachment_def)
    moreover from Inr t True have "\<exists>filename content. a = Triple filename content (Some ''application/gpg-encrypted'')"
      by (cases a) (auto simp: resolve_attachment_def split: option.splits)
    ultimately show ?thesis by simp
  next
    case False
    with assms Inr t show ?thesis
      by (cases "encrypt env c address log")
         (auto simp: encrypt_attachment_def split: sum.splits option.splits)
  qed
qed

text \<open>
  Claim C4. An attachment, and an alternative, whose media type is already
  \<open>application/gpg-encrypted\<close> is returned unchanged and no engine call is made for it:
  \<open>encrypt_attachment\<close> returns the attachment and the log as they came; wherever such
  an attachment or alternative stands in its list, the loop appends it as it is and
  goes on with the log it had. Whatever \<open>encrypt_attachment\<close> returns is tagged, so
  running it again on its own result, for any address, is the identity.
\<close>

theorem already_encrypted_passthrough:
  "encrypt_attachment env address (Triple filename content (Some ''application/gpg-encrypted''))
       use_asc log
     = (Inr (Triple filename content (Some ''application/gpg-encrypted'')), log)
   \<and> encrypt_attachments env address use_asc
       (before @ Triple filename content (Some ''application/gpg-encrypted'') # after) done log
     = (case encrypt_attachments env address use_asc before done log of
          (Inl e, log') \<Rightarrow> (Inl e, log')
        | (Inr done', log') \<Rightarrow>
            encrypt_attachments env address use_asc after
              (done' @ [Triple filename content (Some ''application/gpg-encrypted'')]) log')
   \<and> encrypt_alternatives env address
       (alts_before @ (alt, ''application/gpg-encrypted'') # alts_after) alts_done log
     = (case encrypt_alternatives env address alts_before alts_done log of
          (Inl e, log') \<Rightarrow> (Inl e, log')
        | (Inr done', log') \<Rightarrow>
            encrypt_alternatives env address alts_after
              (done' @ [(alt, ''application/gpg-encrypted'')]) log')
   \<and> (\<forall>a'. fst (encrypt_attachment env address a use_asc log) = Inr a' \<longrightarrow>
          encrypt_attachment env address2 a' use_asc2 log2 = (Inr a', log2))"
proof -
  have 1: "encrypt_attachment env address (Triple filename content (Some ''application/gpg-encrypted''))
       use_asc log
     = (Inr (Triple filename content (Some ''application/gpg-encrypted'')), log)"
    by (rule encrypt_attachment_marked)
  have 2: "encrypt_attachments env address use_asc
       (before @ Triple filename content (Some ''application/gpg-encrypted'') # after) done log
     = (case encrypt_attachments env address use_asc before done log of
          (Inl e, log') \<Rightarrow> (Inl e, log')
        | (Inr done', log') \<Rightarrow>
            encrypt_attachments env address use_asc after
              (done' @ [Triple filename content (Some ''application/gpg-encrypted'')]) log')"
    by (simp add: encrypt_attachments_append encrypt_attachment_marked
          split: prod.splits sum.splits)
  have 3: "encrypt_alternatives env address
       (alts_before @ (alt, ''application/gpg-encrypted'') # alts_after) alts_done log
     = (case encrypt_alternatives env address alts_before alts_done log of
          (Inl e, log') \<Rightarrow> (Inl e, log')
        | (Inr done', log') \<Rightarrow>
            encrypt_alternatives env address alts_after
              (done' @ [(alt, ''application/gpg-encrypted'')]) log')"
    by (simp add: encrypt_alternatives_append split: prod.splits sum.splits)
  have 4: "\<forall>a'. fst (encrypt_attachment env address a use_asc log) = Inr a' \<longrightarrow>
          encrypt_attachment env address2 a' use_asc2 log2 = (Inr a', log2)"
    using encrypt_attachment_result_marked[of env address a use_asc log]
    by (auto simp: encrypt_attachment_marked)
  from 1 2 3 4 show ?thesis by blast
qed

theorem already_encrypted_passthrough_witness:
  "encrypt_attachment demo_env ''c@x.com''
      (Triple (Some ''report.pdf.asc'') (Str ''b@x.com{PDF}'') (Some ''application/gpg-encrypted''))
      False [(Bytes ''PDF'', ''b@x.com'')]
     = (Inr (Triple (Some ''report.pdf.asc'') (Str ''b@x.com{PDF}'') (Some ''application/gpg-encrypted'')),
        [(Bytes ''PDF'', ''b@x.com'')])"
proof -
  have r: "fst (encrypt_attachment demo_env ''b@x.com'' (Filename ''/srv/report.pdf'') True [])
             = Inr (Triple (Some ''report.pdf.asc'') (Str ''b@x.com{PDF}'')
                      (Some ''application/gpg-encrypted''))"
    by (simp add: encrypt_attachment_def resolve_attachment_def encrypt_def demo_env_def
          demo_encrypt_def basename_def characters_def)
  from already_encrypted_passthrough[where env = demo_env and address = "''b@x.com''"
      and a = "Filename ''/srv/report.pdf''" and use_asc = True and log = "[]"
      and ?address2.0 = "''c@x.com''" and ?use_asc2.0 = False
      and ?log2.0 = "[(Bytes ''PDF'', ''b@x.com'')]"] r
  show ?thesis by blast
qed

section \<open>Splitting a batch\<close>

lemma keyed_to_nonempty:
  "a \<in> set (to msg) \<Longrightarrow> a \<in> fst ` set (Address_objects env) \<Longrightarrow> keyed_to env msg \<noteq> []"
  using set_keyed_to[of env msg] by auto

text \<open>
  Claim C8. A message that carries the do-not-encrypt flag and has at least one
  recipient with a key, anywhere in a batch: its copy for the keyed recipients goes to
  the unencrypted list (after the copy for the keyless ones, when there is one),
  nothing of it goes to the encrypted list, and the messages after it start from the
  log the messages before it left, so no engine call is made for it. The copy has the
  body, alternatives and attachments of the message.
\<close>

theorem flagged_message_routed_unencrypted:
  assumes "do_not_encrypt_this_message msg"
      and "\<exists>a \<in> set (to msg). a \<in> fst ` set (Address_objects env)"
  shows "encrypt_messages_lists env (before @ msg # after) log =
     (case encrypt_messages_lists env before log of
        (Inl e, log1) \<Rightarrow> (Inl e, log1)
      | (Inr (us1, es1), log1) \<Rightarrow>
          (case encrypt_messages_lists env after log1 of
             (Inl e, log2) \<Rightarrow> (Inl e, log2)
           | (Inr (us2, es2), log2) \<Rightarrow>
               (Inr (us1
                     @ (if keyless_to env msg \<noteq> []
                        then [(copy_message msg)\<lparr>to := keyless_to env msg\<rparr>] else [])
                     @ replicate (length (keyed_to env msg))
                         ((copy_message msg)\<lparr>to := keyed_to env msg\<rparr>)
                     @ us2,
                     es1 @ es2), log2)))
     \<and> keyed_to env msg \<noteq> []
     \<and> body ((copy_message msg)\<lparr>to := keyed_to env msg\<rparr>) = body msg
     \<and> alternatives ((copy_message msg)\<lparr>to := keyed_to env msg\<rparr>) = alternatives msg
     \<and> attachments ((copy_message msg)\<lparr>to := keyed_to env msg\<rparr>) = attachments msg"
proof -
  from assms(2) have ne: "keyed_to env msg \<noteq> []" by (auto dest: keyed_to_nonempty)
  have "batch_copies env (before @ [msg] @ after) log =
     (case batch_copies env before log of
        (Inl e, log1) \<Rightarrow> (Inl e, log1)
      | (Inr (us1, es1), log1) \<Rightarrow>
          (case batch_copies env after log1 of
             (Inl e, log2) \<Rightarrow> (Inl e, log2)
           | (Inr (us2, es2), log2) \<Rightarrow>
               (Inr (us1 @ unencrypted_copies env msg @ us2, es1 @ es2), log2)))"
    using assms(1)
    by (simp add: batch_copies_append encrypted_copies_def split: prod.splits sum.splits)
  then show ?thesis using assms(1) ne
    by (simp add: encrypt_messages_lists_eq unencrypted_copies_def length_key_addrs
          copy_message_def split: prod.splits sum.splits)
qed

theorem flagged_message_routed_unencrypted_witness:
  "fst (encrypt_messages_lists demo_env [demo_msg [''a@x.com'', ''b@x.com''] True] [])
     = Inr ([(copy_message (demo_msg [''a@x.com'', ''b@x.com''] True))\<lparr>to := [''a@x.com'']\<rparr>,
             (copy_message (demo_msg [''a@x.com'', ''b@x.com''] True))\<lparr>to := [''b@x.com'']\<rparr>], [])
   \<and> snd (encrypt_messages_lists demo_env [demo_msg [''a@x.com'', ''b@x.com''] True] []) = []"
proof -
  let ?m = "demo_msg [''a@x.com'', ''b@x.com''] True"
  have 1: "do_not_encrypt_this_message ?m" by (simp add: demo_msg_def)
  have 2: "\<exists>a \<in> set (to ?m). a \<in> fst ` set (Address_objects demo_env)"
    by (simp add: demo_msg_def demo_env_def)
  have ka: "key_addrs_of demo_env ?m = [(''b@x.com'', True)]"
    by (simp add: key_addrs_of_def py_dict_def demo_env_def demo_msg_def)
  have k: "keyed_to demo_env ?m = [''b@x.com'']" by (simp add: keyed_to_def ka)
  have l: "keyless_to demo_env ?m = [''a@x.com'']"
    by (simp add: keyless_to_def ka) (simp add: demo_msg_def)
  have e: "encrypt_messages_lists demo_env [] [] = (Inr ([], []), [])"
    by (simp add: encrypt_messages_lists_def)
  from flagged_message_routed_unencrypted[OF 1 2, of "[]" "[]" "[]"]
  show ?thesis by (simp add: e k l)
qed

subsection \<open>One message inside a batch\<close>

text \<open>
  When the batch \<open>before @ msg # after\<close> is processed without an exception, so are the
  messages before \<open>msg\<close>, then \<open>msg\<close>, then the messages after it, each starting from
  the log the one before left, and the two lists are the concatenations of the shares.
\<close>

lemma batch_copies_append_Inr:
  assumes "batch_copies env (xs @ ys) log = (Inr (us, es), log')"
  shows "\<exists>us1 es1 log1 us2 es2.
     batch_copies env xs log = (Inr (us1, es1), log1) \<and>
     batch_copies env ys log1 = (Inr (us2, es2), log') \<and>
     us = us1 @ us2 \<and> es = es1 @ es2"
proof (cases "batch_copies env xs log")
  case (Pair r1 log1)
  show ?thesis
  proof (cases r1)
    case (Inl e)
    with assms Pair show ?thesis by (simp add: batch_copies_append)
  next
    case (Inr p1)
    obtain us1 es1 where p1: "p1 = (us1, es1)" by (cases p1)
    show ?thesis
    proof (cases "batch_copies env ys log1")
      case (Pair r2 log2)
      note P2 = this
      show ?thesis
      proof (cases r2)
        case (Inl e)
        with assms \<open>batch_copies env xs log = (r1, log1)\<close> Inr p1 P2 show ?thesis
          by (simp add: batch_copies_append)
      next
        case (Inr p2)
        obtain us2 es2 where p2: "p2 = (us2, es2)" by (cases p2)
        from assms \<open>batch_copies env xs log = (r1, log1)\<close> \<open>r1 = Inr p1\<close> p1 P2 Inr p2
        show ?thesis by (simp add: batch_copies_append)
      qed
    qed
  qed
qed

lemma batch_copies_Cons_Inr:
  assumes "batch_copies env (msg # rest) log = (Inr (us, es), log')"
  shows "\<exists>esm log1 us2 es2.
     encrypted_copies env msg log = (Inr esm, log1) \<and>
     batch_copies env rest log1 = (Inr (us2, es2), log') \<and>
     us = unencrypted_copies env msg @ us2 \<and> es = esm @ es2"
proof (cases "encrypted_copies env msg log")
  case (Pair r1 log1)
  note P1 = this
  show ?thesis
  proof (cases r1)
    case (Inl e)
    with assms Pair show ?thesis by simp
  next
    case (Inr esm)
    note R1 = this
    show ?thesis
    proof (cases "batch_copies env rest log1")
      case (Pair r2 log2)
      note P2 = this
      show ?thesis
      proof (cases r2)
        case (Inl e)
        with assms P1 R1 P2 show ?thesis by simp
      next
        case (Inr p2)
        obtain us2 es2 where p2: "p2 = (us2, es2)" by (cases p2)
        from assms P1 R1 P2 Inr p2 show ?thesis by simp
      qed
    qed
  qed
qed

lemma lists_split_at:
  assumes "encrypt_messages_lists env (before @ msg # after) log = (Inr (us, es), log')"
  shows "\<exists>us1 es1 log1 esm log2 us2 es2.
     encrypt_messages_lists env before log = (Inr (us1, es1), log1) \<and>
     encrypted_copies env msg log1 = (Inr esm, log2) \<and>
     encrypt_messages_lists env after log2 = (Inr (us2, es2), log') \<and>
     us = us1 @ unencrypted_copies env msg @ us2 \<and> es = es1 @ esm @ es2"
proof -
  from assms have "batch_copies env (before @ msg # after) log = (Inr (us, es), log')"
    by (simp add: encrypt_messages_lists_eq)
  from batch_copies_append_Inr[OF this] obtain us1 es1 log1 usr esr where
    1: "batch_copies env before log = (Inr (us1, es1), log1)"
    and 2: "batch_copies env (msg # after) log1 = (Inr (usr, esr), log')"
    and 3: "us = us1 @ usr" "es = es1 @ esr" by blast
  from batch_copies_Cons_Inr[OF 2] obtain esm log2 us2 es2 where
    4: "encrypted_copies env msg log1 = (Inr esm, log2)"
    and 5: "batch_copies env after log2 = (Inr (us2, es2), log')"
    and 6: "usr = unencrypted_copies env msg @ us2" "esr = esm @ es2" by blast
  from 1 3 4 5 6 show ?thesis by (simp add: encrypt_messages_lists_eq)
qed

lemma encrypted_copies_unflagged:
  assumes "\<not> do_not_encrypt_this_message msg"
      and "encrypted_copies env msg log = (Inr esm, log')"
  shows "\<exists>m calls. esm = replicate (length (keyed_to env msg)) m \<and>
           to m = keyed_to env msg \<and>
           body m = foldl (body_after env) (body msg) (keyed_to env msg) \<and>
           log' = log @ calls \<and>
           subseq (body_calls env (body msg) (keyed_to env msg)) calls"
proof -
  from assms obtain m where
    f: "address_fold env (key_addrs_of env msg) ((copy_message msg)\<lparr>to := keyed_to env msg\<rparr>) log
          = (Inr m, log')"
    and e: "esm = replicate (length (key_addrs_of env msg)) m"
    by (auto simp: encrypted_copies_def split: prod.splits sum.splits)
  have k: "map fst (key_addrs_of env msg) = keyed_to env msg" by (simp add: keyed_to_def)
  have c: "body ((copy_message msg)\<lparr>to := keyed_to env msg\<rparr>) = body msg"
    by (simp add: copy_message_def)
  from address_fold_result[OF f] obtain calls where
    "to m = keyed_to env msg"
    "body m = foldl (body_after env) (body msg) (keyed_to env msg)"
    "log' = log @ calls"
    "subseq (body_calls env (body msg) (keyed_to env msg)) calls"
    unfolding k c by auto
  with e[unfolded length_key_addrs] show ?thesis by blast
qed

subsection \<open>Runs of the small installation\<close>

lemma demo_key_addrs:
  "key_addrs_of demo_env (demo_msg [''b@x.com''] f) = [(''b@x.com'', True)]"
  "key_addrs_of demo_env (demo_msg [''a@x.com''] f) = []"
  "key_addrs_of demo_env (demo_msg [''a@x.com'', ''b@x.com''] f) = [(''b@x.com'', True)]"
  "key_addrs_of demo_env (demo_msg [''a@x.com'', ''c@x.com''] f) = [(''c@x.com'', False)]"
  "key_addrs_of demo_env (demo_msg [''b@x.com'', ''c@x.com''] f) =
     [(''b@x.com'', True), (''c@x.com'', False)]"
  by (simp_all add: key_addrs_of_def py_dict_def demo_env_def demo_msg_def)

lemma demo_encrypt_for_address:
  "encrypt_for_address demo_env ''b@x.com'' u (demo_msg rs False\<lparr>body := b\<rparr>) log =
     (Inr (demo_msg rs False\<lparr>body := ''b@x.com{'' @ b @ ''}''\<rparr>), log @ [(Str b, ''b@x.com'')])"
  "encrypt_for_address demo_env ''c@x.com'' u (demo_msg rs False\<lparr>body := b\<rparr>) log =
     (Inr (demo_msg rs False\<lparr>body := ''c@x.com{'' @ b @ ''}''\<rparr>), log @ [(Str b, ''c@x.com'')])"
  by (simp_all add: encrypt_for_address_def encrypt_def demo_env_def demo_encrypt_def
        demo_msg_def characters_def)

lemma demo_copy:
  "(copy_message (demo_msg rs f))\<lparr>to := rs'\<rparr> = demo_msg rs' False\<lparr>body := ''hello''\<rparr>"
  by (simp add: copy_message_def demo_msg_def)

lemma demo_run_one_key:
  "encrypt_messages_lists demo_env ([] @ demo_msg [''b@x.com''] False # []) [] =
     (Inr ([], [demo_msg [''b@x.com''] False\<lparr>body := ''b@x.com{hello}''\<rparr>]),
      [(Str ''hello'', ''b@x.com'')])"
  by (simp add: encrypt_messages_lists_eq encrypted_copies_def unencrypted_copies_def
        keyed_to_def keyless_to_def demo_key_addrs demo_copy demo_encrypt_for_address)
     (simp add: demo_msg_def)


lemma demo_run_mixed:
  "encrypt_messages_lists demo_env ([] @ demo_msg [''a@x.com'', ''b@x.com''] False # []) [] =
     (Inr ([demo_msg [''a@x.com''] False],
           [demo_msg [''b@x.com''] False\<lparr>body := ''b@x.com{hello}''\<rparr>]),
      [(Str ''hello'', ''b@x.com'')])"
  by (simp add: encrypt_messages_lists_eq encrypted_copies_def unencrypted_copies_def
        keyed_to_def keyless_to_def demo_key_addrs demo_copy demo_encrypt_for_address)
     (simp add: demo_msg_def)

lemma demo_run_batch:
  "encrypt_messages demo_env [demo_msg [''a@x.com'', ''b@x.com''] False, demo_msg [''a@x.com''] False] [] =
     (Inr [demo_msg [''a@x.com''] False, demo_msg [''a@x.com''] False,
           demo_msg [''b@x.com''] False\<lparr>body := ''b@x.com{hello}''\<rparr>],
      [(Str ''hello'', ''b@x.com'')])"
  by (simp add: encrypt_messages_def encrypt_messages_lists_eq encrypted_copies_def
        unencrypted_copies_def keyed_to_def keyless_to_def demo_key_addrs demo_copy
        demo_encrypt_for_address)
     (simp add: demo_msg_def)

subsection \<open>Messages whose recipients all have a key\<close>

text \<open>
  Claim C1, as stated, for every message whose \<open>to\<close> addresses all have a key: no
  unencrypted copy and exactly one encrypted copy. It fails for a flagged message: the
  message to \<open>b@x.com\<close>, who has a key, with the do-not-encrypt flag set, yields one
  unencrypted copy and no encrypted copy.
\<close>

theorem all_keyed_flagged_counterexample:
  "to (demo_msg [''b@x.com''] True) = [''b@x.com''] \<and>
   (''b@x.com'', True) \<in> set (Address_objects demo_env) \<and>
   encrypt_messages_lists demo_env [demo_msg [''b@x.com''] True] [] =
     (Inr ([demo_msg [''b@x.com''] False], []), [])"
  by (simp add: encrypt_messages_lists_eq encrypted_copies_def unencrypted_copies_def
        keyed_to_def keyless_to_def demo_key_addrs demo_copy)
     (simp add: demo_msg_def demo_env_def)

text \<open>
  Claim C1, amended. A message without the do-not-encrypt flag, with at least one
  recipient, all of whose \<open>to\<close> addresses have a key, anywhere in a batch that is
  processed without an exception: it adds nothing to the unencrypted list; it adds at
  least one entry to the encrypted list, exactly one when it has exactly one keyed
  address; every entry it adds has as its \<open>to\<close> list the keyed addresses, which are
  the addresses of the message's \<open>to\<close>, each once.
\<close>

theorem all_keyed_message_copies:
  assumes "encrypt_messages_lists env (before @ msg # after) log = (Inr (us, es), log')"
      and "\<not> do_not_encrypt_this_message msg"
      and "to msg \<noteq> []"
      and "set (to msg) \<subseteq> fst ` set (Address_objects env)"
  shows "\<exists>us1 es1 log1 esm log2 us2 es2.
     encrypt_messages_lists env before log = (Inr (us1, es1), log1) \<and>
     encrypt_messages_lists env after log2 = (Inr (us2, es2), log') \<and>
     us = us1 @ us2 \<and> es = es1 @ esm @ es2 \<and> esm \<noteq> [] \<and>
     (\<forall>e \<in> set esm. to e = keyed_to env msg) \<and>
     (length (keyed_to env msg) = 1 \<longrightarrow> length esm = 1) \<and>
     set (keyed_to env msg) = set (to msg) \<and> distinct (keyed_to env msg) \<and>
     fst (encrypt_messages env (before @ msg # after) log) = Inr (us1 @ us2 @ es1 @ esm @ es2)"
proof -
  from lists_split_at[OF assms(1)] obtain us1 es1 log1 esm log2 us2 es2 where
    b: "encrypt_messages_lists env before log = (Inr (us1, es1), log1)"
    and c: "encrypted_copies env msg log1 = (Inr esm, log2)"
    and a: "encrypt_messages_lists env after log2 = (Inr (us2, es2), log')"
    and us: "us = us1 @ unencrypted_copies env msg @ us2" and es: "es = es1 @ esm @ es2"
    by blast
  from encrypted_copies_unflagged[OF assms(2) c] obtain m where
    esm: "esm = replicate (length (keyed_to env msg)) m" and tom: "to m = keyed_to env msg"
    by blast
  have ks: "set (keyed_to env msg) = set (to msg)"
    using assms(4) by (auto simp: set_keyed_to)
  with assms(3) have kne: "keyed_to env msg \<noteq> []" by auto
  have kl: "keyless_to env msg = []"
    using assms(4) by (auto simp: keyless_to_eq filter_empty_conv)
  have u: "unencrypted_copies env msg = []"
    using assms(2) kl by (simp add: unencrypted_copies_def)
  have out: "fst (encrypt_messages env (before @ msg # after) log) = Inr (us1 @ us2 @ es1 @ esm @ es2)"
    using assms(1) by (simp add: encrypt_messages_def us es u)
  show ?thesis
  proof (intro exI conjI)
    show "encrypt_messages_lists env before log = (Inr (us1, es1), log1)" by (rule b)
    show "encrypt_messages_lists env after log2 = (Inr (us2, es2), log')" by (rule a)
    show "us = us1 @ us2" by (simp add: us u)
    show "es = es1 @ esm @ es2" by (rule es)
    show "esm \<noteq> []" using kne by (simp add: esm)
    show "\<forall>e \<in> set esm. to e = keyed_to env msg" by (simp add: esm tom)
    show "length (keyed_to env msg) = 1 \<longrightarrow> length esm = 1" by (simp add: esm)
    show "set (keyed_to env msg) = set (to msg)" by (rule ks)
    show "distinct (keyed_to env msg)" by (rule distinct_keyed_to)
    show "fst (encrypt_messages env (before @ msg # after) log) =
            Inr (us1 @ us2 @ es1 @ esm @ es2)" by (rule out)
  qed
qed

theorem all_keyed_message_copies_witness:
  "\<exists>us1 es1 log1 esm log2 us2 es2.
     encrypt_messages_lists demo_env [] [] = (Inr (us1, es1), log1) \<and>
     encrypt_messages_lists demo_env [] log2 = (Inr (us2, es2), [(Str ''hello'', ''b@x.com'')]) \<and>
     [] = us1 @ us2 \<and>
     [demo_msg [''b@x.com''] False\<lparr>body := ''b@x.com{hello}''\<rparr>] = es1 @ esm @ es2 \<and>
     esm \<noteq> [] \<and>
     (\<forall>e \<in> set esm. to e = keyed_to demo_env (demo_msg [''b@x.com''] False)) \<and>
     (length (keyed_to demo_env (demo_msg [''b@x.com''] False)) = 1 \<longrightarrow> length esm = 1) \<and>
     set (keyed_to demo_env (demo_msg [''b@x.com''] False)) = set (to (demo_msg [''b@x.com''] False)) \<and>
     distinct (keyed_to demo_env (demo_msg [''b@x.com''] False)) \<and>
     fst (encrypt_messages demo_env ([] @ demo_msg [''b@x.com''] False # []) []) = Inr (us1 @ us2 @ es1 @ esm @ es2)"
proof -
  have 2: "\<not> do_not_encrypt_this_message (demo_msg [''b@x.com''] False)" by (simp add: demo_msg_def)
  have 3: "to (demo_msg [''b@x.com''] False) \<noteq> []" by (simp add: demo_msg_def)
  have 4: "set (to (demo_msg [''b@x.com''] False)) \<subseteq> fst ` set (Address_objects demo_env)"
    by (simp add: demo_msg_def demo_env_def)
  from all_keyed_message_copies[OF demo_run_one_key 2 3 4] show ?thesis .
qed

subsection \<open>Messages with keyed and keyless recipients\<close>

text \<open>
  Claim C3, as stated, for every message whose \<open>to\<close> list mixes keyless and keyed
  addresses: an unencrypted and an encrypted copy. It fails for a flagged message: the
  message to \<open>a@x.com\<close>, who has no key, and \<open>c@x.com\<close>, who has one, with the
  do-not-encrypt flag set, yields two unencrypted copies and no encrypted copy.
\<close>

theorem mixed_flagged_counterexample:
  "to (demo_msg [''a@x.com'', ''c@x.com''] True) = [''a@x.com'', ''c@x.com''] \<and>
   ''a@x.com'' \<notin> fst ` set (Address_objects demo_env) \<and>
   ''c@x.com'' \<in> fst ` set (Address_objects demo_env) \<and>
   encrypt_messages_lists demo_env [demo_msg [''a@x.com'', ''c@x.com''] True] [] =
     (Inr ([demo_msg [''a@x.com''] False, demo_msg [''c@x.com''] False], []), [])"
  by (simp add: encrypt_messages_lists_eq encrypted_copies_def unencrypted_copies_def
        keyed_to_def keyless_to_def demo_key_addrs demo_copy)
     (simp add: demo_msg_def demo_env_def)

text \<open>
  Claim C3, amended. A message without the do-not-encrypt flag whose \<open>to\<close> list has an
  address without a key and an address with one, anywhere in a batch that is processed
  without an exception: it adds one unencrypted copy, whose \<open>to\<close> list is the keyless
  addresses in their original order, and at least one encrypted copy, each with the
  keyed addresses as its \<open>to\<close> list; the two \<open>to\<close> lists have no address in common
  and together hold exactly the addresses of the original \<open>to\<close>.
\<close>

theorem mixed_message_copies:
  assumes "encrypt_messages_lists env (before @ msg # after) log = (Inr (us, es), log')"
      and "\<not> do_not_encrypt_this_message msg"
      and "\<exists>a \<in> set (to msg). a \<notin> fst ` set (Address_objects env)"
      and "\<exists>a \<in> set (to msg). a \<in> fst ` set (Address_objects env)"
  shows "\<exists>us1 es1 log1 u esm log2 us2 es2.
     encrypt_messages_lists env before log = (Inr (us1, es1), log1) \<and>
     encrypt_messages_lists env after log2 = (Inr (us2, es2), log') \<and>
     us = us1 @ [u] @ us2 \<and> es = es1 @ esm @ es2 \<and> esm \<noteq> [] \<and>
     to u = filter (\<lambda>a. a \<notin> fst ` set (Address_objects env)) (to msg) \<and>
     (\<forall>e \<in> set esm. to e = keyed_to env msg) \<and>
     set (keyed_to env msg) = {a \<in> set (to msg). a \<in> fst ` set (Address_objects env)} \<and>
     distinct (keyed_to env msg) \<and>
     set (to u) \<union> set (keyed_to env msg) = set (to msg) \<and>
     set (to u) \<inter> set (keyed_to env msg) = {}"
proof -
  from lists_split_at[OF assms(1)] obtain us1 es1 log1 esm log2 us2 es2 where
    b: "encrypt_messages_lists env before log = (Inr (us1, es1), log1)"
    and c: "encrypted_copies env msg log1 = (Inr esm, log2)"
    and a: "encrypt_messages_lists env after log2 = (Inr (us2, es2), log')"
    and us: "us = us1 @ unencrypted_copies env msg @ us2" and es: "es = es1 @ esm @ es2"
    by blast
  from encrypted_copies_unflagged[OF assms(2) c] obtain m where
    esm: "esm = replicate (length (keyed_to env msg)) m" and tom: "to m = keyed_to env msg"
    by blast
  define u where "u = (copy_message msg)\<lparr>to := keyless_to env msg\<rparr>"
  have ks: "set (keyed_to env msg) = {a \<in> set (to msg). a \<in> fst ` set (Address_objects env)}"
    by (auto simp: set_keyed_to)
  from assms(4) have kne: "keyed_to env msg \<noteq> []" by (auto dest: keyed_to_nonempty)
  have tou: "to u = filter (\<lambda>a. a \<notin> fst ` set (Address_objects env)) (to msg)"
    by (simp add: u_def keyless_to_eq)
  have kl: "keyless_to env msg \<noteq> []"
    using assms(3) by (auto simp: keyless_to_eq filter_empty_conv)
  have uc: "unencrypted_copies env msg = [u]"
    using assms(2) kl by (simp add: unencrypted_copies_def u_def)
  have un: "set (to u) \<union> set (keyed_to env msg) = set (to msg)"
    and di: "set (to u) \<inter> set (keyed_to env msg) = {}"
    by (auto simp: tou ks)
  show ?thesis
  proof (intro exI conjI)
    show "encrypt_messages_lists env before log = (Inr (us1, es1), log1)" by (rule b)
    show "encrypt_messages_lists env after log2 = (Inr (us2, es2), log')" by (rule a)
    show "us = us1 @ [u] @ us2" by (simp add: us uc)
    show "es = es1 @ esm @ es2" by (rule es)
    show "esm \<noteq> []" using kne by (simp add: esm)
    show "to u = filter (\<lambda>a. a \<notin> fst ` set (Address_objects env)) (to msg)" by (rule tou)
    show "\<forall>e \<in> set esm. to e = keyed_to env msg" by (simp add: esm tom)
    show "set (keyed_to env msg) = {a \<in> set (to msg). a \<in> fst ` set (Address_objects env)}"
      by (rule ks)
    show "distinct (keyed_to env msg)" by (rule distinct_keyed_to)
    show "set (to u) \<union> set (keyed_to env msg) = set (to msg)" by (rule un)
    show "set (to u) \<inter> set (keyed_to env msg) = {}" by (rule di)
  qed
qed

theorem mixed_message_copies_witness:
  "\<exists>us1 es1 log1 u esm log2 us2 es2.
     encrypt_messages_lists demo_env [] [] = (Inr (us1, es1), log1) \<and>
     encrypt_messages_lists demo_env [] log2 = (Inr (us2, es2), [(Str ''hello'', ''b@x.com'')]) \<and>
     [demo_msg [''a@x.com''] False] = us1 @ [u] @ us2 \<and>
     [demo_msg [''b@x.com''] False\<lparr>body := ''b@x.com{hello}''\<rparr>] = es1 @ esm @ es2 \<and>
     esm \<noteq> [] \<and>
     to u = filter (\<lambda>a. a \<notin> fst ` set (Address_objects demo_env)) (to (demo_msg [''a@x.com'', ''b@x.com''] False)) \<and>
     (\<forall>e \<in> set esm. to e = keyed_to demo_env (demo_msg [''a@x.com'', ''b@x.com''] False)) \<and>
     set (keyed_to demo_env (demo_msg [''a@x.com'', ''b@x.com''] False)) =
       {a \<in> set (to (demo_msg [''a@x.com'', ''b@x.com''] False)). a \<in> fst ` set (Address_objects demo_env)} \<and>
     distinct (keyed_to demo_env (demo_msg [''a@x.com'', ''b@x.com''] False)) \<and>
     set (to u) \<union> set (keyed_to demo_env (demo_msg [''a@x.com'', ''b@x.com''] False)) = set (to (demo_msg [''a@x.com'', ''b@x.com''] False)) \<and>
     set (to u) \<inter> set (keyed_to demo_env (demo_msg [''a@x.com'', ''b@x.com''] False)) = {}"
proof -
  have 2: "\<not> do_not_encrypt_this_message (demo_msg [''a@x.com'', ''b@x.com''] False)" by (simp add: demo_msg_def)
  have 3: "\<exists>a \<in> set (to (demo_msg [''a@x.com'', ''b@x.com''] False)). a \<notin> fst ` set (Address_objects demo_env)"
    by (simp add: demo_msg_def demo_env_def)
  have 4: "\<exists>a \<in> set (to (demo_msg [''a@x.com'', ''b@x.com''] False)). a \<in> fst ` set (Address_objects demo_env)"
    by (simp add: demo_msg_def demo_env_def)
  from mixed_message_copies[OF demo_run_mixed 2 3 4] show ?thesis .
qed

subsection \<open>Several keyed recipients\<close>



subsection \<open>The order of the returned list\<close>

lemma batch_copies_per_message:
  "batch_copies env msgs log = (Inr (us, es), log') \<Longrightarrow>
   \<exists>rs. list_all2 (\<lambda>msg r. fst (batch_copies env [msg] []) = Inr r) msgs rs \<and>
        us = concat (map fst rs) \<and> es = concat (map snd rs)"
proof (induction msgs arbitrary: log us es)
  case Nil
  then show ?case by simp
next
  case (Cons msg msgs)
  from batch_copies_Cons_Inr[OF Cons.prems] obtain esm log1 us2 es2 where
    1: "encrypted_copies env msg log = (Inr esm, log1)"
    and 2: "batch_copies env msgs log1 = (Inr (us2, es2), log')"
    and 3: "us = unencrypted_copies env msg @ us2" "es = esm @ es2" by blast
  from Cons.IH[OF 2] obtain rs where
    4: "list_all2 (\<lambda>msg r. fst (batch_copies env [msg] []) = Inr r) msgs rs"
    and 5: "us2 = concat (map fst rs)" "es2 = concat (map snd rs)" by blast
  have "fst (encrypted_copies env msg []) = Inr esm"
    using encrypted_copies_log[of env msg log] 1
    by (cases "encrypted_copies env msg []") simp
  then have 6: "fst (batch_copies env [msg] []) = Inr (unencrypted_copies env msg, esm)"
    by (cases "encrypted_copies env msg []") simp
  show ?case
  proof (intro exI conjI)
    show "list_all2 (\<lambda>msg r. fst (batch_copies env [msg] []) = Inr r) (msg # msgs)
            ((unencrypted_copies env msg, esm) # rs)"
      using 4 6 by simp
    show "us = concat (map fst ((unencrypted_copies env msg, esm) # rs))" by (simp add: 3 5)
    show "es = concat (map snd ((unencrypted_copies env msg, esm) # rs))" by (simp add: 3 5)
  qed
qed

text \<open>
  Claim C10. The list \<open>encrypt_messages\<close> returns is the unencrypted copies of all
  messages, in the order of the input messages, followed by the encrypted copies of
  all messages, in that order too: with \<open>rs\<close> pairing each input message with its
  unencrypted and its encrypted copies (those it yields when it is processed alone),
  the result is all the first components and then all the second ones.
\<close>

theorem unencrypted_before_encrypted:
  assumes "encrypt_messages env email_messages log = (Inr out, log')"
  shows "\<exists>rs. list_all2 (\<lambda>msg r. fst (encrypt_messages_lists env [msg] []) = Inr r)
                email_messages rs \<and>
              encrypt_messages_lists env email_messages log =
                (Inr (concat (map fst rs), concat (map snd rs)), log') \<and>
              out = concat (map fst rs) @ concat (map snd rs)"
proof -
  obtain r l where P: "encrypt_messages_lists env email_messages log = (r, l)"
    by (cases "encrypt_messages_lists env email_messages log")
  with assms obtain us es where r: "r = Inr (us, es)" and out: "out = us @ es" and l: "l = log'"
    by (cases r) (auto simp: encrypt_messages_def)
  from P r l have "batch_copies env email_messages log = (Inr (us, es), log')"
    by (simp add: encrypt_messages_lists_eq)
  from batch_copies_per_message[OF this] obtain rs where
    "list_all2 (\<lambda>msg r. fst (batch_copies env [msg] []) = Inr r) email_messages rs"
    and u: "us = concat (map fst rs)" and e: "es = concat (map snd rs)" by blast
  then have "list_all2 (\<lambda>msg r. fst (encrypt_messages_lists env [msg] []) = Inr r)
                email_messages rs"
    by (simp only: encrypt_messages_lists_eq)
  with P r l out u e show ?thesis by auto
qed

theorem unencrypted_before_encrypted_witness:
  "\<exists>rs. list_all2 (\<lambda>msg r. fst (encrypt_messages_lists demo_env [msg] []) = Inr r)
           [demo_msg [''a@x.com'', ''b@x.com''] False, demo_msg [''a@x.com''] False] rs \<and>
         encrypt_messages_lists demo_env
           [demo_msg [''a@x.com'', ''b@x.com''] False, demo_msg [''a@x.com''] False] [] =
           (Inr (concat (map fst rs), concat (map snd rs)), [(Str ''hello'', ''b@x.com'')]) \<and>
         [demo_msg [''a@x.com''] False, demo_msg [''a@x.com''] False,
          demo_msg [''b@x.com''] False\<lparr>body := ''b@x.com{hello}''\<rparr>]
           = concat (map fst rs) @ concat (map snd rs)"
  using unencrypted_before_encrypted[OF demo_run_batch] .

subsection \<open>When the batch is processed without an exception\<close>

text \<open>
  The theorems above speak of batches that are processed without an exception. With a
  reliable engine and readable attachments every batch is.
\<close>

lemma encrypt_reliable:
  "engine_reliable env \<Longrightarrow>
   encrypt env text addr log = (Inr (data (gpg_encrypt env text addr)), log @ [(text, addr)])"
  by (auto simp: engine_reliable_def encrypt_def Let_def)

lemma encrypt_attachment_reliable:
  assumes "engine_reliable env" and "readable env a"
  shows "\<exists>a' log'. encrypt_attachment env address a use_asc log = (Inr a', log') \<and> readable env a'"
proof (cases a)
  case (Filename path)
  with assms(2) obtain content where "open_rb env path = Some content"
    by (auto simp: readable_def)
  with Filename show ?thesis
    by (simp add: encrypt_attachment_def resolve_attachment_def encrypt_reliable[OF assms(1)]
          readable_def)
next
  case (Triple f c m)
  then show ?thesis
    by (simp add: encrypt_attachment_def resolve_attachment_def encrypt_reliable[OF assms(1)]
          readable_def)
qed

lemma encrypt_attachments_reliable:
  assumes "engine_reliable env"
  shows "\<forall>a \<in> set atts. readable env a \<Longrightarrow> \<forall>a \<in> set done. readable env a \<Longrightarrow>
         \<exists>out log'. encrypt_attachments env address use_asc atts done log = (Inr out, log') \<and>
                    (\<forall>a \<in> set out. readable env a)"
proof (induction atts arbitrary: "done" log)
  case Nil
  then show ?case by simp
next
  case (Cons a atts)
  from Cons.prems(1) have "readable env a" by simp
  from encrypt_attachment_reliable[OF assms this, of address use_asc log] obtain a' log1 where
    1: "encrypt_attachment env address a use_asc log = (Inr a', log1)" and 2: "readable env a'"
    by blast
  have "\<forall>a \<in> set (done @ [a']). readable env a" using Cons.prems(2) 2 by simp
  from Cons.IH[OF _ this, of log1] Cons.prems(1) show ?case by (simp add: 1)
qed

lemma encrypt_alternatives_reliable:
  assumes "engine_reliable env"
  shows "\<exists>out log'. encrypt_alternatives env address alts done log = (Inr out, log')"
proof (induction alts arbitrary: "done" log)
  case Nil
  then show ?case by simp
next
  case (Cons p alts)
  obtain alt mimetype where p: "p = (alt, mimetype)" by (cases p)
  show ?case by (simp add: p encrypt_reliable[OF assms] Cons.IH)
qed

lemma encrypt_for_address_reliable:
  assumes "engine_reliable env" and "\<forall>a \<in> set (attachments m). readable env a"
  shows "\<exists>m' log'. encrypt_for_address env address use_asc m log = (Inr m', log') \<and>
                   (\<forall>a \<in> set (attachments m'). readable env a)"
proof -
  let ?m1 = "m\<lparr>body := data (gpg_encrypt env (Str (body m)) address)\<rparr>"
  let ?l1 = "log @ [(Str (body m), address)]"
  from encrypt_alternatives_reliable[OF assms(1), of address "alternatives ?m1" "[]" ?l1]
  obtain alts l2 where
    1: "encrypt_alternatives env address (alternatives ?m1) [] ?l1 = (Inr alts, l2)" by blast
  from encrypt_attachments_reliable[OF assms(1), of "attachments ?m1" "[]" address use_asc l2]
    assms(2)
  obtain atts l3 where
    2: "encrypt_attachments env address use_asc (attachments ?m1) [] l2 = (Inr atts, l3)"
    and 3: "\<forall>a \<in> set atts. readable env a" by auto
  show ?thesis
    using 1 2 3 by (simp add: encrypt_for_address_def encrypt_reliable[OF assms(1)])
qed

lemma address_fold_reliable:
  assumes "engine_reliable env"
  shows "\<forall>a \<in> set (attachments m). readable env a \<Longrightarrow>
         \<exists>m' log'. address_fold env kas m log = (Inr m', log')"
proof (induction kas arbitrary: m log)
  case Nil
  then show ?case by simp
next
  case (Cons ka kas)
  obtain address use_asc where ka: "ka = (address, use_asc)" by (cases ka)
  from encrypt_for_address_reliable[OF assms Cons.prems, of address use_asc log]
  obtain m1 log1 where 1: "encrypt_for_address env address use_asc m log = (Inr m1, log1)"
    and 2: "\<forall>a \<in> set (attachments m1). readable env a" by blast
  from Cons.IH[OF 2, of log1] show ?case by (simp add: ka 1)
qed

lemma batch_copies_reliable:
  assumes "engine_reliable env"
  shows "\<forall>msg \<in> set msgs. \<forall>a \<in> set (attachments msg). readable env a \<Longrightarrow>
         \<exists>us es log'. batch_copies env msgs log = (Inr (us, es), log')"
proof (induction msgs arbitrary: log)
  case Nil
  then show ?case by simp
next
  case (Cons msg msgs)
  have "\<exists>es log1. encrypted_copies env msg log = (Inr es, log1)"
  proof (cases "do_not_encrypt_this_message msg")
    case True
    then show ?thesis by (simp add: encrypted_copies_def)
  next
    case False
    have "\<forall>a \<in> set (attachments ((copy_message msg)\<lparr>to := keyed_to env msg\<rparr>)). readable env a"
      using Cons.prems by (simp add: copy_message_def)
    from address_fold_reliable[OF assms this, of "key_addrs_of env msg" log] False
    show ?thesis by (auto simp: encrypted_copies_def)
  qed
  then obtain es log1 where 1: "encrypted_copies env msg log = (Inr es, log1)" by blast
  from Cons.IH[of log1] Cons.prems obtain us' es' log' where
    "batch_copies env msgs log1 = (Inr (us', es'), log')" by auto
  with 1 show ?case by simp
qed

lemma encrypt_messages_returns:
  assumes "engine_reliable env"
      and "\<forall>msg \<in> set email_messages. \<forall>a \<in> set (attachments msg). readable env a"
  shows "\<exists>out log'. encrypt_messages env email_messages log = (Inr out, log')"
proof -
  from batch_copies_reliable[OF assms, of log] obtain us es log' where
    "batch_copies env email_messages log = (Inr (us, es), log')" by blast
  then show ?thesis by (simp add: encrypt_messages_def encrypt_messages_lists_eq)
qed

section \<open>The backend mixins\<close>

text \<open>
  Claim C9. With GnuPG disabled the two wrappers are to hand the batch to the
  transport unchanged and to leave what the transport's \<open>send_messages\<close> returns and
  raises as it is. They do not return what it returns: with GnuPG disabled and a
  transport that reports one message sent, both wrappers return \<open>None\<close>.
\<close>

theorem send_messages_returns_None:
  "(\<lambda>ms. Inr (length ms) :: error + nat) [demo_msg [''a@x.com''] False] = Inr 1 \<and>
   Encrypting_send_messages (demo_env\<lparr>USE_GNUPG := False\<rparr>) (\<lambda>ms. Inr (length ms))
       [demo_msg [''a@x.com''] False] [] = (Inr None, []) \<and>
   Signing_send_messages (demo_env\<lparr>USE_GNUPG := False\<rparr>) (\<lambda>ms. Inr (length ms))
       [demo_msg [''a@x.com''] False] = Inr None"
  by (simp add: Encrypting_send_messages_def Signing_send_messages_def demo_env_def)

text \<open>
  The rest of the claim holds: with GnuPG disabled the transport is called on the batch
  as it came, and what it raises is raised. No call of a wrapper returns a count.
\<close>

lemma send_messages_disabled:
  assumes "\<not> USE_GNUPG env"
  shows "Encrypting_send_messages env super_send email_messages log =
           (case super_send email_messages of Inl e \<Rightarrow> (Inl e, log) | Inr n \<Rightarrow> (Inr None, log))"
    and "Signing_send_messages env super_send email_messages =
           (case super_send email_messages of Inl e \<Rightarrow> Inl e | Inr n \<Rightarrow> Inr None)"
  using assms by (simp_all add: Encrypting_send_messages_def Signing_send_messages_def)

lemma send_messages_error_kept:
  assumes "super_send email_messages = Inl e" and "\<not> USE_GNUPG env"
  shows "fst (Encrypting_send_messages env super_send email_messages log) = Inl e"
    and "Signing_send_messages env super_send email_messages = Inl e"
  using assms by (simp_all add: Encrypting_send_messages_def Signing_send_messages_def)

lemma send_messages_never_count:
  "fst (Encrypting_send_messages env super_send email_messages log) \<noteq> Inr (Some n)"
  "Signing_send_messages env super_send email_messages \<noteq> Inr (Some n)"
  by (auto simp: Encrypting_send_messages_def Signing_send_messages_def
        split: prod.splits sum.splits)

end
